theory Spec2Isabelle
  imports Complex_Main
begin

section \<open>Numbers and constants of the FaceMesh3D component\<close>

text \<open>
  The component computes with JavaScript numbers. They are modelled as real numbers:
  rounding of doubles and of the single-precision vertex arrays is not modelled, and
  neither are NaN and the infinities as values of the state. The one place where the
  source produces NaN from finite inputs is the scale \<open>0 / 0\<close> of \<open>toDisplayPoints\<close>;
  its result is modelled there as the value it is. Counters and array lengths are natural
  numbers.
\<close>

type_synonym point = "real \<times> real \<times> real"

text \<open>
  Why the description of a run of the render loop ends: \<open>TypeError\<close> is an exception
  the source throws; \<open>NaNFrame\<close> is a frame whose display points are NaN, with which
  the source goes on, while the model, whose stored numbers are real, follows it no
  further.
\<close>

datatype halt = NaNFrame | TypeError

definition js_or :: "real \<Rightarrow> real \<Rightarrow> real" where
  \<comment> \<open>\<open>a || b\<close> on numbers: zero is the falsy number.\<close>
  "js_or a b = (if a = 0 then b else a)"

definition CONNECT_K :: nat where
  "CONNECT_K = 2"

definition LINES_UPDATE_EVERY_N_FRAMES :: nat where
  "LINES_UPDATE_EVERY_N_FRAMES = 2"

definition DRAW_LINES :: bool where
  "DRAW_LINES = True"

definition DEPTH_SCALE :: real where
  "DEPTH_SCALE = 50"

definition CALIBRATION_PER_POINT :: nat where
  "CALIBRATION_PER_POINT = 5"

definition OFFSCREEN_DELAY_MS :: real where
  "OFFSCREEN_DELAY_MS = 250"

section \<open>toDisplayPoints: the cover transform\<close>

text \<open>
  The container contributes its bounding rectangle and its \<open>clientWidth\<close>, the video
  element its intrinsic size (zero while the metadata is unknown). An absent element is
  \<open>None\<close>.
\<close>

record container =
  rect_width :: real
  rect_height :: real
  clientWidth :: real

record video =
  videoWidth :: real
  videoHeight :: real

definition display_cw :: "container \<Rightarrow> real" where
  \<comment> \<open>\<open>cw = rect.width || container.clientWidth || 640\<close>\<close>
  "display_cw c = js_or (js_or (rect_width c) (clientWidth c)) 640"

definition display_ch :: "container \<Rightarrow> real" where
  \<comment> \<open>\<open>ch = rect.height || Math.floor((cw * 3) / 4)\<close>\<close>
  "display_ch c = js_or (rect_height c) (of_int \<lfloor>(display_cw c * 3) / 4\<rfloor>)"

definition source_vw :: "container \<Rightarrow> video \<Rightarrow> real" where
  \<comment> \<open>\<open>vw = video.videoWidth || cw\<close>\<close>
  "source_vw c v = js_or (videoWidth v) (display_cw c)"

definition source_vh :: "container \<Rightarrow> video \<Rightarrow> real" where
  \<comment> \<open>\<open>vh = video.videoHeight || ch\<close>\<close>
  "source_vh c v = js_or (videoHeight v) (display_ch c)"

text \<open>
  The result is \<open>Inr\<close> of the mapped points. \<open>vw\<close> is never zero, since \<open>cw\<close> is
  not (lemma \<open>source_vw_nonzero\<close>). \<open>vh\<close> is zero only when \<open>ch\<close> is zero too; then
  \<open>ch / vh\<close> is \<open>0 / 0\<close>, so \<open>s\<close>, \<open>dx\<close> and \<open>dy\<close> are NaN and the source
  returns the point \<open>[NaN, NaN, z || 0]\<close> for every landmark: this list is the result
  \<open>Inl\<close> of the list of its third components.
\<close>

type_synonym nan_points = "real list"

definition toDisplayPoints ::
  "container option \<Rightarrow> video option \<Rightarrow> point list \<Rightarrow> nan_points + point list" where
  "toDisplayPoints cont vid points =
     (case cont of
        None \<Rightarrow> Inr points
      | Some c \<Rightarrow>
          (case vid of
             None \<Rightarrow> Inr points
           | Some v \<Rightarrow>
               if points = [] then Inr points
               else
                 let cw = display_cw c;
                     ch = display_ch c;
                     vw = source_vw c v;
                     vh = source_vh c v
                 in if vh = 0 then Inl (map (\<lambda>(x, y, z). js_or z 0) points)
                    else
                      let s = max (cw / vw) (ch / vh);
                          dx = (cw - vw * s) / 2;
                          dy = (ch - vh * s) / 2
                      in Inr (map (\<lambda>(x, y, z). (x * s + dx, y * s + dy, js_or z 0)) points)))"

section \<open>updateGeometry: the point-cloud vertex buffer\<close>

text \<open>
  \<open>scene\<close> says whether \<open>sceneRef.current\<close> is set, \<open>position\<close> is the array of the
  point cloud's position attribute (\<open>None\<close> while \<open>pointsRef.current\<close> is null),
  \<open>needsUpdate\<close> is the attribute's upload flag, and \<open>sphereOf\<close> records the vertex data
  that the last \<open>computeBoundingSphere\<close> call read. \<open>allocations\<close> is a log of the
  \<open>Float32Array\<close> allocations of \<open>updateGeometry\<close>, in order: \<open>Created\<close> is the
  allocation when the cloud is first built, \<open>Reallocated\<close> the one under the comment
  "Reallocate buffer if landmark count changes"; each carries the array length.
\<close>

datatype alloc_event = Created nat | Reallocated nat

record geometry =
  scene :: bool
  position :: "real list option"
  needsUpdate :: bool
  sphereOf :: "real list option"
  allocations :: "alloc_event list"

definition create_cloud :: "point list \<Rightarrow> geometry \<Rightarrow> geometry" where
  \<comment> \<open>\<open>if (!pointsRef.current) { ... new Float32Array(points.length * 3) ... }\<close>\<close>
  "create_cloud points g =
     (case position g of
        None \<Rightarrow> g\<lparr>position := Some (replicate (length points * 3) 0),
                   needsUpdate := False,
                   sphereOf := None,
                   allocations := allocations g @ [Created (length points * 3)]\<rparr>
      | Some arr \<Rightarrow> g)"

definition fit_buffer :: "point list \<Rightarrow> geometry \<Rightarrow> geometry" where
  \<comment> \<open>\<open>if (!positionAttr || positionAttr.array.length !== points.length * 3) { ... }\<close>\<close>
  "fit_buffer points g =
     (if (case position g of None \<Rightarrow> True | Some arr \<Rightarrow> length arr \<noteq> length points * 3)
      then g\<lparr>position := Some (replicate (length points * 3) 0),
              needsUpdate := False,
              allocations := allocations g @ [Reallocated (length points * 3)]\<rparr>
      else g)"

fun write_points :: "point list \<Rightarrow> nat \<Rightarrow> real list \<Rightarrow> real list" where
  \<comment> \<open>the \<open>for\<close> loop over \<open>points\<close>, from index \<open>i\<close> on; a write past the end of a
      typed array is ignored, as \<open>list_update\<close> ignores it\<close>
  "write_points [] i arr = arr"
| "write_points ((x, y, z) # ps) i arr =
     (let ix = i * 3
      in write_points ps (Suc i)
           (arr[ix := x, ix + 1 := y, ix + 2 := - (js_or z 0) * DEPTH_SCALE]))"

definition updateGeometry :: "point list \<Rightarrow> geometry \<Rightarrow> geometry" where
  "updateGeometry points g =
     (if \<not> scene g then g
      else
        let g1 = create_cloud points g;
            g2 = fit_buffer points g1
        in (case position g2 of
              None \<Rightarrow> g2
            | Some arr0 \<Rightarrow>
                let arr = write_points points 0 arr0
                in g2\<lparr>position := Some arr, needsUpdate := True, sphereOf := Some arr\<rparr>))"

section \<open>The nearest-neighbour wireframe\<close>

text \<open>
  For point \<open>i\<close> the inner loop keeps \<open>best\<close>, a list of pairs (squared distance,
  index) of length at most \<open>CONNECT_K\<close>, sorted after every change with the comparator
  \<open>a[0] - b[0]\<close>. \<open>Array.prototype.sort\<close> is stable, as \<open>sort_key\<close> is.
\<close>

definition dist2 :: "point \<Rightarrow> point \<Rightarrow> real" where
  "dist2 p q =
     (case p of (xi, yi, zi) \<Rightarrow>
        (case q of (xj, yj, zj) \<Rightarrow>
           let dx = xi - xj;
               dy = yi - yj;
               dz = js_or zi 0 - js_or zj 0
           in dx * dx + dy * dy + dz * dz))"

definition scan_step :: "point list \<Rightarrow> nat \<Rightarrow> (real \<times> nat) list \<Rightarrow> nat \<Rightarrow> (real \<times> nat) list" where
  \<comment> \<open>the body of the loop over \<open>j\<close>\<close>
  "scan_step pts i best j =
     (if i = j then best
      else
        let d2 = dist2 (pts ! i) (pts ! j)
        in if length best < CONNECT_K then sort_key fst (best @ [(d2, j)])
           else if d2 < fst (best ! (CONNECT_K - 1))
                then sort_key fst (best[CONNECT_K - 1 := (d2, j)])
                else best)"

definition nearest :: "point list \<Rightarrow> nat \<Rightarrow> (real \<times> nat) list" where
  \<comment> \<open>\<open>best\<close> after the loop \<open>for (let j = 0; j < n; j++)\<close>\<close>
  "nearest pts i = foldl (scan_step pts i) [] [0..<length pts]"

text \<open>
  The edge set is a JavaScript \<open>Set\<close> of the strings \<open>a + "," + b\<close>. A \<open>Set\<close> keeps
  its members in insertion order and ignores a second \<open>add\<close> of a member, so it is a
  list without repetition. \<open>edge_key\<close> is the string the source builds; the model keeps
  the pair \<open>(a, b)\<close>, which the string determines (lemma \<open>edge_key_inj\<close> below).
\<close>

definition canon :: "nat \<Rightarrow> nat \<Rightarrow> nat \<times> nat" where
  \<comment> \<open>\<open>a = i < j ? i : j; b = i < j ? j : i\<close>\<close>
  "canon i j = (if i < j then i else j, if i < j then j else i)"

definition set_add :: "'a list \<Rightarrow> 'a \<Rightarrow> 'a list" where
  "set_add es e = (if e \<in> set es then es else es @ [e])"

definition emit :: "nat \<Rightarrow> (nat \<times> nat) list \<Rightarrow> (real \<times> nat) list \<Rightarrow> (nat \<times> nat) list" where
  \<comment> \<open>\<open>for (const [, j] of best) edges.add(...)\<close>\<close>
  "emit i es best = foldl (\<lambda>acc dj. set_add acc (canon i (snd dj))) es best"

definition knn_edges :: "point list \<Rightarrow> (nat \<times> nat) list" where
  \<comment> \<open>\<open>edges\<close> after the loop \<open>for (let i = 0; i < n; i++)\<close>\<close>
  "knn_edges pts = foldl (\<lambda>es i. emit i es (nearest pts i)) [] [0..<length pts]"

definition digit_char :: "nat \<Rightarrow> char" where
  \<comment> \<open>the character of a decimal digit; \<open>"0"\<close> has code 48\<close>
  "digit_char d = char_of (48 + d)"

fun decimal :: "nat \<Rightarrow> string" where
  \<comment> \<open>a non-negative integer converted to a string\<close>
  "decimal n = (if n < 10 then [digit_char n] else decimal (n div 10) @ [digit_char (n mod 10)])"

declare decimal.simps [simp del]

definition edge_key :: "nat \<times> nat \<Rightarrow> string" where
  "edge_key e = decimal (fst e) @ '','' @ decimal (snd e)"

definition line_positions :: "point list \<Rightarrow> (nat \<times> nat) list \<Rightarrow> real list" where
  \<comment> \<open>the \<open>Float32Array(m * 2 * 3)\<close> filled edge by edge\<close>
  "line_positions pts edges =
     concat (map (\<lambda>(a, b).
        (case pts ! a of (ax, ay, az) \<Rightarrow>
           (case pts ! b of (bx, by, bz) \<Rightarrow>
              [ax, ay, - (js_or az 0) * DEPTH_SCALE, bx, by, - (js_or bz 0) * DEPTH_SCALE]))) edges)"

section \<open>FPS accounting\<close>

text \<open>
  \<open>fps\<close> is the React state set by \<open>setFps\<close>; \<open>reports\<close> logs every value passed to
  \<open>setFps\<close>, in order. A zero \<open>delta\<close> would divide by zero.
\<close>

datatype fps_value = Fps int | FpsNonFinite

record fps_state =
  frames :: nat
  lastTime :: real
  lastFpsUpdate :: real
  fps :: fps_value
  reports :: "fps_value list"

definition fps_tick :: "real \<Rightarrow> fps_state \<Rightarrow> fps_state" where
  \<comment> \<open>\<open>now\<close> is the value of \<open>performance.now()\<close> read after the render call\<close>
  "fps_tick now st =
     (let st1 = st\<lparr>frames := frames st + 1\<rparr>
      in if now - lastFpsUpdate st1 > 500
         then
           let delta = now - lastTime st1;
               v = (if delta = 0 then FpsNonFinite
                    else Fps (round ((real (frames st1) * 1000) / delta)))
           in st1\<lparr>fps := v, reports := reports st1 @ [v],
                   frames := 0, lastTime := now, lastFpsUpdate := now\<rparr>
         else st1)"

section \<open>The render loop\<close>

text \<open>
  One call of \<open>loop\<close>; \<open>Inl\<close> says why the model does not give the next state.
  A detected face is given by the landmark list that
  \<open>extract2DPoints\<close> returns for it. \<open>lines\<close> is the position array of the line
  segments (\<open>None\<close> while \<open>linesRef.current\<close> is null); \<open>lineBuilds\<close> counts the
  recomputations of the edge set. \<open>lineFrameCounter\<close> is a JavaScript number; it is
  modelled as a natural number (it stays exact up to \<open>2^53\<close>).
\<close>

record frame_input =
  faces :: "point list list"
  cont :: "container option"
  vid :: "video option"
  clock :: real

record loop_state =
  geo :: geometry
  lines :: "real list option"
  lineFrameCounter :: nat
  lineBuilds :: nat
  facesCount :: nat
  fpsacc :: fps_state

definition rebuild_lines :: "point list \<Rightarrow> loop_state \<Rightarrow> halt + loop_state" where
  \<comment> \<open>the body of the throttled branch; \<open>sceneRef.current.add(lines)\<close> throws when the
      scene is gone and the line object has to be created\<close>
  "rebuild_lines pts st =
     (if lines st = None \<and> \<not> scene (geo st) then Inl TypeError
      else Inr (st\<lparr>lines := Some (line_positions pts (knn_edges pts)),
                    lineBuilds := lineBuilds st + 1\<rparr>))"

definition update_scene :: "point list \<Rightarrow> loop_state \<Rightarrow> halt + loop_state" where
  \<comment> \<open>\<open>updateGeometry(pts)\<close> and the throttled line recomputation\<close>
  "update_scene pts st =
     (let st1 = st\<lparr>geo := updateGeometry pts (geo st)\<rparr>
      in if DRAW_LINES
         then
           let due = (lineFrameCounter st1 mod LINES_UPDATE_EVERY_N_FRAMES = 0);
               st2 = st1\<lparr>lineFrameCounter := lineFrameCounter st1 + 1\<rparr>
           in if due then rebuild_lines pts st2 else Inr st2
         else Inr st1)"

definition loop :: "frame_input \<Rightarrow> loop_state \<Rightarrow> halt + loop_state" where
  "loop inp st =
     (let st0 = st\<lparr>facesCount := length (faces inp)\<rparr>;
          drawn =
            (case faces inp of
               [] \<Rightarrow> Inr st0
             | raw # rest \<Rightarrow>
                 (case toDisplayPoints (cont inp) (vid inp) raw of
                    Inl zs \<Rightarrow> Inl NaNFrame
                  | Inr pts \<Rightarrow> if pts = [] then Inr st0 else update_scene pts st0))
      in (case drawn of
            Inl f \<Rightarrow> Inl f
          | Inr st3 \<Rightarrow> Inr (st3\<lparr>fpsacc := fps_tick (clock inp) (fpsacc st3)\<rparr>)))"

fun run_loop :: "frame_input list \<Rightarrow> loop_state \<Rightarrow> halt + loop_state" where
  \<comment> \<open>successive frames, up to the first frame the model does not follow\<close>
  "run_loop [] st = Inr st"
| "run_loop (inp # inps) st =
     (case loop inp st of Inl f \<Rightarrow> Inl f | Inr st' \<Rightarrow> run_loop inps st')"

section \<open>The gaze listener\<close>

text \<open>
  The listener's argument is null or an object whose \<open>x\<close> and \<open>y\<close> are numbers or not.
  A call reads \<open>performance.now()\<close> twice: \<open>clockInside\<close> is the reading stored in
  \<open>lastOnScreenAt\<close> for an inside sample, \<open>clockNow\<close> the reading compared with it.
\<close>

datatype jsval = Number real | NotNumber

record viewport =
  innerWidth :: real
  docClientWidth :: real
  innerHeight :: real
  docClientHeight :: real

record gaze_event =
  gazeData :: "(jsval \<times> jsval) option"
  view :: viewport
  clockInside :: real
  clockNow :: real

record gaze_state =
  cancelled :: bool
  lastOnScreenAt :: real
  offScreen :: bool
  gazeXY :: "(int \<times> int) option"

definition margin :: real where
  "margin = 40"

definition view_W :: "viewport \<Rightarrow> real" where
  "view_W vp = js_or (js_or (innerWidth vp) (docClientWidth vp)) 0"

definition view_H :: "viewport \<Rightarrow> real" where
  "view_H vp = js_or (js_or (innerHeight vp) (docClientHeight vp)) 0"

fun valid :: "(jsval \<times> jsval) option \<Rightarrow> (real \<times> real) option" where
  \<comment> \<open>\<open>data && typeof data.x === "number" && typeof data.y === "number"\<close>\<close>
  "valid (Some (Number x, Number y)) = Some (x, y)"
| "valid _ = None"

definition inside :: "viewport \<Rightarrow> real \<Rightarrow> real \<Rightarrow> bool" where
  "inside vp x y =
     (x \<ge> - margin \<and> x \<le> view_W vp + margin \<and> y \<ge> - margin \<and> y \<le> view_H vp + margin)"

definition gazeListener :: "gaze_event \<Rightarrow> gaze_state \<Rightarrow> gaze_state" where
  "gazeListener ev st =
     (if cancelled st then st
      else
        let st1 =
              (case valid (gazeData ev) of
                 Some (x, y) \<Rightarrow>
                   let st' = st\<lparr>gazeXY := Some (round x, round y)\<rparr>
                   in if inside (view ev) x y
                      then st'\<lparr>lastOnScreenAt := clockInside ev\<rparr>
                      else st'
               | None \<Rightarrow> st\<lparr>gazeXY := None\<rparr>);
            now = clockNow ev
        in st1\<lparr>offScreen := (now - lastOnScreenAt st1 > OFFSCREEN_DELAY_MS)\<rparr>)"

definition run_gaze :: "gaze_event list \<Rightarrow> gaze_state \<Rightarrow> gaze_state" where
  "run_gaze evs st = foldl (\<lambda>s ev. gazeListener ev s) st evs"

definition inside_sample :: "gaze_event \<Rightarrow> bool" where
  \<comment> \<open>a valid sample whose position lies in the viewport widened by the margin\<close>
  "inside_sample ev =
     (case valid (gazeData ev) of Some (x, y) \<Rightarrow> inside (view ev) x y | None \<Rightarrow> False)"

section \<open>Calibration\<close>

text \<open>
  \<open>calibrationCounts\<close> is a JavaScript array: an entry is a number or a hole
  (\<open>None\<close>), and a write past the end extends the array with holes. \<open>wg\<close> is the
  WebGazer instance when the script has loaded: of the predictor only the size of its
  training data and the two switches the controller sets are modelled.
\<close>

record webgazer =
  trainedData :: nat
  mouseListeners :: bool
  predictionPoints :: bool

record calib_state =
  calibrating :: bool
  calibrationCounts :: "nat option list"
  showGazeDot :: bool
  wg :: "webgazer option"

definition js_get0 :: "nat option list \<Rightarrow> nat \<Rightarrow> nat" where
  \<comment> \<open>\<open>xs[i] || 0\<close>\<close>
  "js_get0 xs i = (if i < length xs then (case xs ! i of None \<Rightarrow> 0 | Some c \<Rightarrow> c) else 0)"

definition js_set :: "nat option list \<Rightarrow> nat \<Rightarrow> nat \<Rightarrow> nat option list" where
  \<comment> \<open>\<open>xs[i] = v\<close>\<close>
  "js_set xs i v =
     (if i < length xs then xs[i := Some v]
      else xs @ replicate (i - length xs) None @ [Some v])"

definition js_every_ge :: "nat \<Rightarrow> nat option list \<Rightarrow> bool" where
  \<comment> \<open>\<open>xs.every((c) => c >= q)\<close>; \<open>every\<close> skips holes\<close>
  "js_every_ge q xs = list_all (\<lambda>e. case e of None \<Rightarrow> True | Some c \<Rightarrow> c \<ge> q) xs"

definition startCalibration :: "calib_state \<Rightarrow> calib_state" where
  "startCalibration st =
     st\<lparr>calibrating := True,
        calibrationCounts := replicate 9 (Some 0),
        wg := map_option
                (\<lambda>w. w\<lparr>trainedData := 0, mouseListeners := True, predictionPoints := True\<rparr>)
                (wg st)\<rparr>"

definition stopCalibration :: "calib_state \<Rightarrow> calib_state" where
  "stopCalibration st =
     st\<lparr>calibrating := False,
        wg := map_option
                (\<lambda>w. w\<lparr>mouseListeners := False, predictionPoints := showGazeDot st\<rparr>)
                (wg st)\<rparr>"

definition clickPoint :: "nat \<Rightarrow> calib_state \<Rightarrow> calib_state" where
  \<comment> \<open>the \<open>onClick\<close> handler of the button of calibration point \<open>idx\<close>\<close>
  "clickPoint idx st =
     (let prev = calibrationCounts st;
          next = js_set prev idx (min CALIBRATION_PER_POINT (js_get0 prev idx + 1));
          st1 = (if js_every_ge CALIBRATION_PER_POINT next then stopCalibration st else st)
      in st1\<lparr>calibrationCounts := next\<rparr>)"

definition clicks :: "nat list \<Rightarrow> calib_state \<Rightarrow> calib_state" where
  "clicks idxs st = foldl (\<lambda>s idx. clickPoint idx s) st idxs"

section \<open>Notions used to state the properties\<close>

definition vertex :: "point \<Rightarrow> real list" where
  \<comment> \<open>the three numbers stored for one display point\<close>
  "vertex p = (case p of (x, y, z) \<Rightarrow> [x, y, - z * DEPTH_SCALE])"

definition run_updates :: "point list list \<Rightarrow> geometry \<Rightarrow> geometry" where
  \<comment> \<open>successive calls of \<open>updateGeometry\<close>, one per frame\<close>
  "run_updates frs g = foldl (\<lambda>acc pts. updateGeometry pts acc) g frs"

fun count_changes :: "nat \<Rightarrow> nat list \<Rightarrow> alloc_event list" where
  \<comment> \<open>one reallocation for every point count that differs from the count before it\<close>
  "count_changes m [] = []"
| "count_changes m (n # ns) =
     (if n \<noteq> m then [Reallocated (n * 3)] else []) @ count_changes n ns"

definition last_inside :: "real \<Rightarrow> gaze_event list \<Rightarrow> real" where
  \<comment> \<open>the time stored for the last inside sample of \<open>evs\<close>, or \<open>t0\<close> when there is none\<close>
  "last_inside t0 evs = last (t0 # map clockInside (filter inside_sample evs))"

definition counts_of :: "nat list \<Rightarrow> nat option list" where
  \<comment> \<open>the nine click counts after the clicks \<open>idxs\<close>, each capped at the quota\<close>
  "counts_of idxs = map (\<lambda>i. Some (min CALIBRATION_PER_POINT (count_list idxs i))) [0..<9]"

definition others :: "nat \<Rightarrow> nat \<Rightarrow> nat" where
  \<comment> \<open>how many indices below \<open>m\<close> differ from \<open>i\<close>\<close>
  "others m i = (if i < m then m - 1 else m)"

definition best_ok :: "point list \<Rightarrow> nat \<Rightarrow> nat \<Rightarrow> (real \<times> nat) list \<Rightarrow> bool" where
  \<comment> \<open>the invariant of the loop over \<open>j\<close>, after the indices below \<open>m\<close>: \<open>best\<close> holds
      the \<open>CONNECT_K\<close> nearest of them, or all of them when there are fewer\<close>
  "best_ok pts i m best =
     (length best = min CONNECT_K (others m i)
      \<and> sorted (map fst best)
      \<and> distinct (map snd best)
      \<and> (\<forall>e \<in> set best. snd e < m \<and> snd e \<noteq> i \<and> fst e = dist2 (pts ! i) (pts ! snd e))
      \<and> (\<forall>j<m. j \<noteq> i \<longrightarrow> j \<notin> snd ` set best \<longrightarrow>
            (\<forall>e \<in> set best. fst e \<le> dist2 (pts ! i) (pts ! j))))"

definition nbrs :: "point list \<Rightarrow> nat \<Rightarrow> nat set" where
  \<comment> \<open>the indices that point \<open>i\<close> is connected to\<close>
  "nbrs pts i = snd ` set (nearest pts i)"

definition edges_upto :: "point list \<Rightarrow> nat \<Rightarrow> (nat \<times> nat) list" where
  \<comment> \<open>\<open>edges\<close> after the points below \<open>m\<close>\<close>
  "edges_upto pts m = foldl (\<lambda>es i. emit i es (nearest pts i)) [] [0..<m]"

definition undecimal :: "string \<Rightarrow> nat" where
  \<comment> \<open>the number a string of decimal digits stands for\<close>
  "undecimal s = foldl (\<lambda>acc c. 10 * acc + (of_char c - 48)) 0 s"

definition has_points :: "frame_input \<Rightarrow> bool" where
  \<comment> \<open>a frame on which a face with a non-empty landmark list was detected\<close>
  "has_points inp = (case faces inp of [] \<Rightarrow> False | raw # rest \<Rightarrow> raw \<noteq> [])"

definition builds_after :: "frame_input list \<Rightarrow> loop_state \<Rightarrow> nat option" where
  \<comment> \<open>the number of edge-set recomputations after the frames \<open>inps\<close>\<close>
  "builds_after inps st =
     (case run_loop inps st of Inl f \<Rightarrow> None | Inr st' \<Rightarrow> Some (lineBuilds st'))"

text \<open>Example frames: two landmarks, three landmarks, no face; and the state at start-up.\<close>

definition frame_two :: frame_input where
  "frame_two = \<lparr>faces = [[(0, 0, 1), (3, 4, 2)]], cont = None, vid = None, clock = 16\<rparr>"

definition frame_three :: frame_input where
  "frame_three =
     \<lparr>faces = [[(0, 0, 0), (3, 4, 0), (6, 0, 1)]], cont = None, vid = None, clock = 48\<rparr>"

definition frame_none :: frame_input where
  "frame_none = \<lparr>faces = [], cont = None, vid = None, clock = 32\<rparr>"

definition start_state :: loop_state where
  "start_state =
     \<lparr>geo = \<lparr>scene = True, position = None, needsUpdate = False, sphereOf = None,
             allocations = []\<rparr>,
      lines = None, lineFrameCounter = 0, lineBuilds = 0, facesCount = 0,
      fpsacc = \<lparr>frames = 0, lastTime = 0, lastFpsUpdate = 0, fps = Fps 0, reports = []\<rparr>\<rparr>"

definition in_widened_viewport :: "real \<Rightarrow> real \<Rightarrow> real \<Rightarrow> real \<Rightarrow> bool" where
  \<comment> \<open>the point \<open>(x, y)\<close> lies in the viewport of width \<open>W\<close> and height \<open>H\<close> widened by
      40 pixels on each of its four sides\<close>
  "in_widened_viewport W H x y = (- 40 \<le> x \<and> x \<le> W + 40 \<and> - 40 \<le> y \<and> y \<le> H + 40)"

definition on_screen_sample :: "gaze_event \<Rightarrow> bool" where
  \<comment> \<open>a sample with numeric \<open>x\<close> and \<open>y\<close> that lie in the widened viewport\<close>
  "on_screen_sample ev =
     (case gazeData ev of
        Some (Number x, Number y) \<Rightarrow>
          in_widened_viewport (view_W (view ev)) (view_H (view ev)) x y
      | _ \<Rightarrow> False)"

definition last_on_screen :: "real \<Rightarrow> gaze_event list \<Rightarrow> real" where
  \<comment> \<open>the time stored for the last on-screen sample of \<open>evs\<close>, or \<open>t0\<close> when there is none\<close>
  "last_on_screen t0 evs = last (t0 # map clockInside (filter on_screen_sample evs))"

definition sample_at :: "real \<Rightarrow> real \<Rightarrow> real \<Rightarrow> gaze_event" where
  \<comment> \<open>example: a valid sample at \<open>(x, y)\<close> at time \<open>t\<close> in a 1280 by 720 viewport\<close>
  "sample_at x y t =
     \<lparr>gazeData = Some (Number x, Number y),
      view = \<lparr>innerWidth = 1280, docClientWidth = 1280, innerHeight = 720, docClientHeight = 720\<rparr>,
      clockInside = t, clockNow = t\<rparr>"

definition no_sample_at :: "real \<Rightarrow> gaze_event" where
  \<comment> \<open>example: an invalid sample (no prediction) at time \<open>t\<close>\<close>
  "no_sample_at t =
     \<lparr>gazeData = None,
      view = \<lparr>innerWidth = 1280, docClientWidth = 1280, innerHeight = 720, docClientHeight = 720\<rparr>,
      clockInside = t, clockNow = t\<rparr>"

definition gaze_start :: gaze_state where
  \<comment> \<open>example: an active listener whose last on-screen time is 0\<close>
  "gaze_start = \<lparr>cancelled = False, lastOnScreenAt = 0, offScreen = False, gazeXY = None\<rparr>"

section \<open>Basic facts\<close>

lemma js_or_zero [simp]: "js_or z 0 = z"
  by (simp add: js_or_def)

subsection \<open>The vertex buffer after the write loop\<close>

lemma length_write_points [simp]: "length (write_points ps i arr) = length arr"
  by (induction ps i arr rule: write_points.induct) (simp_all add: Let_def)

lemma update3:
  assumes "n + 3 \<le> length arr"
  shows "arr[n := a, n + 1 := b, n + 2 := c] = take n arr @ [a, b, c] @ drop (n + 3) arr"
proof (rule nth_equalityI)
  show "length (arr[n := a, n + 1 := b, n + 2 := c]) = length (take n arr @ [a, b, c] @ drop (n + 3) arr)"
    using assms by simp
next
  fix k assume "k < length (arr[n := a, n + 1 := b, n + 2 := c])"
  then have k: "k < length arr" by simp
  consider "k < n" | "k = n" | "k = n + 1" | "k = n + 2" | "n + 3 \<le> k" by linarith
  then show "arr[n := a, n + 1 := b, n + 2 := c] ! k = (take n arr @ [a, b, c] @ drop (n + 3) arr) ! k"
  proof cases
    case 1 then show ?thesis using k assms by (simp add: nth_append)
  next
    case 2 then show ?thesis using k assms by (simp add: nth_append)
  next
    case 3 then show ?thesis using k assms by (simp add: nth_append)
  next
    case 4 then show ?thesis using k assms by (simp add: nth_append)
  next
    case 5
    then have "k - n = Suc (Suc (Suc (k - (n + 3))))" by simp
    then show ?thesis using 5 k assms by (simp add: nth_append)
  qed
qed

lemma write_points_concat:
  "(i + length ps) * 3 \<le> length arr \<Longrightarrow>
   write_points ps i arr = take (i * 3) arr @ concat (map vertex ps) @ drop ((i + length ps) * 3) arr"
proof (induction ps i arr rule: write_points.induct)
  case (1 i arr)
  then show ?case by simp
next
  case (2 x y z ps i arr)
  define w where "w = - (js_or z 0) * DEPTH_SCALE"
  define arr' where "arr' = arr[i * 3 := x, i * 3 + 1 := y, i * 3 + 2 := w]"
  define pre where "pre = take (i * 3) arr"
  have len: "i * 3 + 3 \<le> length arr" using "2.prems" by simp
  have lpre: "length pre = i * 3" using len by (simp add: pre_def)
  have upd: "arr' = pre @ [x, y, w] @ drop (i * 3 + 3) arr"
    unfolding arr'_def pre_def by (rule update3[OF len])
  have step: "write_points ((x, y, z) # ps) i arr = write_points ps (Suc i) arr'"
    by (simp add: Let_def arr'_def w_def)
  have larr': "length arr' = length arr" by (simp add: arr'_def)
  have "(Suc i + length ps) * 3 \<le> length arr'" using "2.prems" larr' by simp
  then have ih: "write_points ps (Suc i) arr' =
        take (Suc i * 3) arr' @ concat (map vertex ps) @ drop ((Suc i + length ps) * 3) arr'"
    using "2.IH"[of "i * 3"] by (simp add: arr'_def w_def)
  have t: "take (Suc i * 3) arr' = pre @ [x, y, w]"
    using lpre by (simp add: upd)
  have "(Suc i + length ps) * 3 = length (pre @ [x, y, w]) + (length ps * 3)"
    using lpre by simp
  then have d: "drop ((Suc i + length ps) * 3) arr' = drop (length ps * 3) (drop (i * 3 + 3) arr)"
    unfolding upd using lpre by (simp add: numeral_3_eq_3)
  have d': "drop (length ps * 3) (drop (i * 3 + 3) arr) = drop ((i + length ((x, y, z) # ps)) * 3) arr"
    by (simp add: algebra_simps)
  have v: "vertex (x, y, z) = [x, y, w]" by (simp add: vertex_def w_def)
  show ?case
    unfolding step ih t d d' using v by (simp add: pre_def)
qed

lemma write_points_full:
  "length arr = length ps * 3 \<Longrightarrow> write_points ps 0 arr = concat (map vertex ps)"
  using write_points_concat[of 0 ps arr] by simp

lemma concat_vertex_nth:
  "i < length ps \<Longrightarrow>
     concat (map vertex ps) ! (i * 3) = fst (ps ! i) \<and>
     concat (map vertex ps) ! (i * 3 + 1) = fst (snd (ps ! i)) \<and>
     concat (map vertex ps) ! (i * 3 + 2) = - snd (snd (ps ! i)) * DEPTH_SCALE"
proof (induction ps arbitrary: i)
  case Nil
  then show ?case by simp
next
  case (Cons p ps)
  obtain x y z where p: "p = (x, y, z)" by (cases p) auto
  show ?case
  proof (cases i)
    case 0
    then show ?thesis by (simp add: p vertex_def)
  next
    case (Suc k)
    then have "k < length ps" using Cons.prems by simp
    from Cons.IH[OF this] show ?thesis
      by (simp add: Suc p vertex_def)
  qed
qed

lemma length_concat_vertex [simp]: "length (concat (map vertex ps)) = length ps * 3"
  by (induction ps) (auto simp: vertex_def)

subsection \<open>Facts about \<open>updateGeometry\<close>\<close>

lemma fitted_buffer:
  "\<exists>arr. position (fit_buffer pts (create_cloud pts g)) = Some arr \<and> length arr = length pts * 3"
  by (cases "position g") (auto simp: fit_buffer_def create_cloud_def)

lemma updateGeometry_position:
  assumes "scene g"
  shows "position (updateGeometry pts g) = Some (concat (map vertex pts))"
    and "sphereOf (updateGeometry pts g) = Some (concat (map vertex pts))"
    and "needsUpdate (updateGeometry pts g)"
    and "scene (updateGeometry pts g)"
proof -
  obtain arr where arr: "position (fit_buffer pts (create_cloud pts g)) = Some arr"
    "length arr = length pts * 3"
    using fitted_buffer by blast
  have sc: "scene (fit_buffer pts (create_cloud pts g))"
    using assms by (cases "position g") (auto simp: fit_buffer_def create_cloud_def)
  show "position (updateGeometry pts g) = Some (concat (map vertex pts))"
    using assms arr by (simp add: updateGeometry_def Let_def write_points_full)
  show "sphereOf (updateGeometry pts g) = Some (concat (map vertex pts))"
    using assms arr by (simp add: updateGeometry_def Let_def write_points_full)
  show "needsUpdate (updateGeometry pts g)"
    using assms arr by (simp add: updateGeometry_def Let_def)
  show "scene (updateGeometry pts g)"
    using assms arr sc by (simp add: updateGeometry_def Let_def)
qed

lemma updateGeometry_allocations:
  assumes "scene g"
  shows "allocations (updateGeometry pts g) =
     allocations g @
       (case position g of
          None \<Rightarrow> [Created (length pts * 3)]
        | Some arr \<Rightarrow> if length arr \<noteq> length pts * 3 then [Reallocated (length pts * 3)] else [])"
proof -
  obtain arr where arr: "position (fit_buffer pts (create_cloud pts g)) = Some arr"
    using fitted_buffer by blast
  have "allocations (updateGeometry pts g) = allocations (fit_buffer pts (create_cloud pts g))"
    using assms arr by (simp add: updateGeometry_def Let_def)
  also have "\<dots> = allocations g @
       (case position g of
          None \<Rightarrow> [Created (length pts * 3)]
        | Some arr \<Rightarrow> if length arr \<noteq> length pts * 3 then [Reallocated (length pts * 3)] else [])"
    by (cases "position g") (auto simp: fit_buffer_def create_cloud_def)
  finally show ?thesis .
qed

lemma run_updates_Cons: "run_updates (pts # frs) g = run_updates frs (updateGeometry pts g)"
  by (simp add: run_updates_def)

lemma run_updates_from:
  assumes "scene g" "position g = Some arr" "length arr = m * 3"
  shows "allocations (run_updates frs g) = allocations g @ count_changes m (map length frs)
       \<and> scene (run_updates frs g)
       \<and> (\<exists>arr'. position (run_updates frs g) = Some arr' \<and> length arr' = last (m # map length frs) * 3)"
  using assms
proof (induction frs arbitrary: g arr m)
  case Nil
  then show ?case by (simp add: run_updates_def)
next
  case (Cons pts frs)
  let ?g = "updateGeometry pts g"
  have p: "position ?g = Some (concat (map vertex pts))" and s: "scene ?g"
    using updateGeometry_position[OF Cons.prems(1)] by auto
  have a: "allocations ?g = allocations g @ (if length pts \<noteq> m then [Reallocated (length pts * 3)] else [])"
    using updateGeometry_allocations[OF Cons.prems(1), of pts] Cons.prems(2,3) by simp
  have l: "length (concat (map vertex pts)) = length pts * 3" by simp
  from Cons.IH[OF s p l] a show ?case
    by (simp add: run_updates_Cons)
qed

section \<open>The coordinate mapper (C3)\<close>

lemma display_cw_nonzero: "display_cw c \<noteq> 0"
  by (simp add: display_cw_def js_or_def)

lemma source_vw_nonzero: "source_vw c v \<noteq> 0"
  using display_cw_nonzero[of c] by (simp add: source_vw_def js_or_def)

lemma source_vh_zero: "source_vh c v = 0 \<longleftrightarrow> videoHeight v = 0 \<and> display_ch c = 0"
  by (simp add: source_vh_def js_or_def)

lemma toDisplayPoints_zero_vh:
  assumes "source_vh c v = 0" and "pts \<noteq> []"
  shows "toDisplayPoints (Some c) (Some v) pts = Inl (map (\<lambda>(x, y, z). z) pts)"
  using assms by (simp add: toDisplayPoints_def Let_def)

text \<open>
  C3. With \<open>vw\<close> and \<open>vh\<close> the source dimensions the function works with (the video's
  own, or the display's when the video's are unknown, that is zero) and both positive,
  every landmark \<open>(x, y, z)\<close> is mapped to \<open>(x * s + dx, y * s + dy, z)\<close> with
  \<open>s = max (cw / vw) (ch / vh)\<close>, \<open>dx = (cw - vw * s) / 2\<close> and
  \<open>dy = (ch - vh * s) / 2\<close>. When the video's dimensions are unknown, \<open>vw = cw\<close> and
  \<open>vh = ch\<close>, the scale is 1, the offsets are zero and the points are returned as they
  are.
\<close>

theorem toDisplayPoints_cover:
  fixes c :: container and v :: video
  assumes "0 < source_vw c v" and "0 < source_vh c v"
  shows "toDisplayPoints (Some c) (Some v) pts =
           Inr (map (\<lambda>(x, y, z).
                  (let cw = display_cw c; ch = display_ch c;
                       vw = source_vw c v; vh = source_vh c v;
                       s = max (cw / vw) (ch / vh);
                       dx = (cw - vw * s) / 2;
                       dy = (ch - vh * s) / 2
                   in (x * s + dx, y * s + dy, z))) pts)
       \<and> (videoWidth v \<noteq> 0 \<longrightarrow> source_vw c v = videoWidth v)
       \<and> (videoHeight v \<noteq> 0 \<longrightarrow> source_vh c v = videoHeight v)
       \<and> (videoWidth v = 0 \<longrightarrow> source_vw c v = display_cw c)
       \<and> (videoHeight v = 0 \<longrightarrow> source_vh c v = display_ch c)
       \<and> (videoWidth v = 0 \<and> videoHeight v = 0 \<longrightarrow>
             (let cw = display_cw c; ch = display_ch c;
                  vw = source_vw c v; vh = source_vh c v;
                  s = max (cw / vw) (ch / vh)
              in s = 1 \<and> (cw - vw * s) / 2 = 0 \<and> (ch - vh * s) / 2 = 0)
             \<and> toDisplayPoints (Some c) (Some v) pts = Inr pts)"
proof (intro conjI impI)
  show "toDisplayPoints (Some c) (Some v) pts =
           Inr (map (\<lambda>(x, y, z).
                  (let cw = display_cw c; ch = display_ch c;
                       vw = source_vw c v; vh = source_vh c v;
                       s = max (cw / vw) (ch / vh);
                       dx = (cw - vw * s) / 2;
                       dy = (ch - vh * s) / 2
                   in (x * s + dx, y * s + dy, z))) pts)"
    using assms(2) by (simp add: toDisplayPoints_def Let_def)
next
  assume "videoWidth v \<noteq> 0"
  then show "source_vw c v = videoWidth v" by (simp add: source_vw_def js_or_def)
next
  assume "videoHeight v \<noteq> 0"
  then show "source_vh c v = videoHeight v" by (simp add: source_vh_def js_or_def)
next
  assume "videoWidth v = 0"
  then show "source_vw c v = display_cw c" by (simp add: source_vw_def js_or_def)
next
  assume "videoHeight v = 0"
  then show "source_vh c v = display_ch c" by (simp add: source_vh_def js_or_def)
next
  assume a: "videoWidth v = 0 \<and> videoHeight v = 0"
  then have e: "source_vw c v = display_cw c" "source_vh c v = display_ch c"
    by (simp_all add: source_vw_def source_vh_def js_or_def)
  have nz: "display_cw c \<noteq> 0" "display_ch c \<noteq> 0" using assms e by simp_all
  show "let cw = display_cw c; ch = display_ch c;
            vw = source_vw c v; vh = source_vh c v;
            s = max (cw / vw) (ch / vh)
        in s = 1 \<and> (cw - vw * s) / 2 = 0 \<and> (ch - vh * s) / 2 = 0"
    using nz by (simp add: e Let_def)
  show "toDisplayPoints (Some c) (Some v) pts = Inr pts"
    using nz by (simp add: toDisplayPoints_def e Let_def case_prod_beta)
qed

theorem toDisplayPoints_cover_witness:
  "toDisplayPoints (Some \<lparr>rect_width = 800, rect_height = 800, clientWidth = 800\<rparr>)
       (Some \<lparr>videoWidth = 640, videoHeight = 480\<rparr>) [(320, 240, 1 / 2), (0, 0, 0)]
     = Inr [(400, 400, 1 / 2), (- 400 / 3, 0, 0)]
   \<and> toDisplayPoints (Some \<lparr>rect_width = 800, rect_height = 600, clientWidth = 800\<rparr>)
       (Some \<lparr>videoWidth = 0, videoHeight = 0\<rparr>) [(320, 240, 1 / 2)]
     = Inr [(320, 240, 1 / 2)]"
proof -
  let ?c = "\<lparr>rect_width = 800, rect_height = 800, clientWidth = 800\<rparr>"
  let ?v = "\<lparr>videoWidth = 640, videoHeight = 480\<rparr>"
  let ?c2 = "\<lparr>rect_width = 800, rect_height = 600, clientWidth = 800\<rparr>"
  let ?v2 = "\<lparr>videoWidth = 0, videoHeight = 0\<rparr>"
  have cw: "display_cw ?c = 800" "display_ch ?c = 800" "display_cw ?c2 = 800" "display_ch ?c2 = 600"
    by (simp_all add: display_cw_def display_ch_def js_or_def)
  have sv: "source_vw ?c ?v = 640" "source_vh ?c ?v = 480"
    "source_vw ?c2 ?v2 = 800" "source_vh ?c2 ?v2 = 600"
    by (simp_all add: source_vw_def source_vh_def cw js_or_def)
  have h: "0 < source_vw ?c ?v" "0 < source_vh ?c ?v"
    "0 < source_vw ?c2 ?v2" "0 < source_vh ?c2 ?v2"
    by (simp_all add: sv)
  have 1: "toDisplayPoints (Some ?c) (Some ?v) [(320, 240, 1 / 2), (0, 0, 0)]
     = Inr [(400, 400, 1 / 2), (- 400 / 3, 0, 0)]"
    using toDisplayPoints_cover[OF h(1,2), THEN conjunct1, of "[(320, 240, 1 / 2), (0, 0, 0)]"]
    by (simp add: cw sv Let_def max_def)
  have 2: "toDisplayPoints (Some ?c2) (Some ?v2) [(320, 240, 1 / 2)] = Inr [(320, 240, 1 / 2)]"
    using toDisplayPoints_cover[OF h(3,4), of "[(320, 240, 1 / 2)]",
        THEN conjunct2, THEN conjunct2, THEN conjunct2, THEN conjunct2, THEN conjunct2]
    by simp
  from 1 2 show ?thesis by simp
qed

section \<open>The vertex buffer (C4, C5)\<close>

text \<open>
  C4. Starting with no point cloud and running any non-empty sequence of updates, the
  vertex array has three entries per point of the last update, and the allocation log is
  the creation of the first array followed by one reallocation for exactly those updates
  whose point count differs from that of the update before.
\<close>

theorem geometry_buffer_reallocation:
  assumes "scene g" and "position g = None"
  shows "(\<exists>arr. position (run_updates (pts # frs) g) = Some arr
            \<and> length arr = 3 * length (last (pts # frs)))
       \<and> allocations (run_updates (pts # frs) g) =
           allocations g @ Created (3 * length pts) # count_changes (length pts) (map length frs)"
proof -
  let ?g = "updateGeometry pts g"
  have p: "position ?g = Some (concat (map vertex pts))" and s: "scene ?g"
    using updateGeometry_position[OF assms(1)] by auto
  have a: "allocations ?g = allocations g @ [Created (length pts * 3)]"
    using updateGeometry_allocations[OF assms(1), of pts] assms(2) by simp
  have l: "length (concat (map vertex pts)) = length pts * 3" by simp
  have lst: "last (length pts # map length frs) = length (last (pts # frs))"
    by (simp add: last_map)
  from run_updates_from[OF s p l, of frs] a lst show ?thesis
    by (simp add: run_updates_Cons mult.commute)
qed

theorem geometry_buffer_reallocation_witness:
  "allocations (run_updates [replicate 10 (0, 0, 0), replicate 10 (1, 1, 1)]
      \<lparr>scene = True, position = None, needsUpdate = False, sphereOf = None, allocations = []\<rparr>)
     = [Created 30]
   \<and> allocations (run_updates [replicate 10 (0, 0, 0), replicate 12 (1, 1, 1)]
      \<lparr>scene = True, position = None, needsUpdate = False, sphereOf = None, allocations = []\<rparr>)
     = [Created 30, Reallocated 36]
   \<and> (\<exists>arr. position (run_updates [replicate 10 (0, 0, 0), replicate 12 (1, 1, 1)]
      \<lparr>scene = True, position = None, needsUpdate = False, sphereOf = None, allocations = []\<rparr>)
        = Some arr \<and> length arr = 36)"
proof -
  let ?g = "\<lparr>scene = True, position = None, needsUpdate = False, sphereOf = None, allocations = []\<rparr>"
  have g: "scene ?g" "position ?g = None" by simp_all
  show ?thesis
    using geometry_buffer_reallocation[OF g, of "replicate 10 (0, 0, 0)" "[replicate 10 (1, 1, 1)]"]
      geometry_buffer_reallocation[OF g, of "replicate 10 (0, 0, 0)" "[replicate 12 (1, 1, 1)]"]
    by simp
qed

text \<open>
  C5. After an update the array holds, for every display point \<open>(x, y, z)\<close> at index
  \<open>i\<close>, the triple \<open>(x, y, - z * DEPTH_SCALE)\<close> at positions \<open>3 i\<close>, \<open>3 i + 1\<close>,
  \<open>3 i + 2\<close>, with \<open>DEPTH_SCALE = 50\<close>; the bounding sphere was computed from this
  array, and the attribute is flagged for upload.
\<close>

theorem updateGeometry_depth:
  assumes "scene g" and "i < length pts" and "pts ! i = (x, y, z)"
  shows "\<exists>arr. position (updateGeometry pts g) = Some arr
           \<and> arr ! (i * 3) = x \<and> arr ! (i * 3 + 1) = y \<and> arr ! (i * 3 + 2) = - z * DEPTH_SCALE
           \<and> DEPTH_SCALE = 50
           \<and> sphereOf (updateGeometry pts g) = Some arr
           \<and> needsUpdate (updateGeometry pts g)"
  using updateGeometry_position[OF assms(1), of pts] concat_vertex_nth[OF assms(2)] assms(3)
  by (simp add: DEPTH_SCALE_def)

theorem updateGeometry_depth_witness:
  "\<exists>arr. position (updateGeometry [(1, 2, 3), (4, 5, 6)]
       \<lparr>scene = True, position = Some [0, 0, 0], needsUpdate = False, sphereOf = None, allocations = []\<rparr>)
       = Some arr
     \<and> arr ! 3 = 4 \<and> arr ! 4 = 5 \<and> arr ! 5 = - 300
     \<and> sphereOf (updateGeometry [(1, 2, 3), (4, 5, 6)]
       \<lparr>scene = True, position = Some [0, 0, 0], needsUpdate = False, sphereOf = None, allocations = []\<rparr>)
       = Some arr"
  using updateGeometry_depth[of "\<lparr>scene = True, position = Some [0, 0, 0], needsUpdate = False, sphereOf = None, allocations = []\<rparr>"
      1 "[(1, 2, 3), (4, 5, 6)]" 4 5 6]
  by (auto simp: DEPTH_SCALE_def)

section \<open>FPS accounting (C9)\<close>

text \<open>
  C9, as amended. \<open>lastTime\<close> is never later than \<open>lastFpsUpdate\<close> (they are read in
  this order at set-up and are equal after every report). When strictly more than 500 ms
  have passed since \<open>lastFpsUpdate\<close>, the tick reports
  \<open>round (frames * 1000 / (now - lastTime))\<close>, the frame being processed counted in
  \<open>frames\<close>, and resets the frame counter and both timestamps. When at most 500 ms have
  passed, nothing is reported and only the frame counter advances.
\<close>

theorem fps_report:
  assumes "lastTime st \<le> lastFpsUpdate st"
  shows "(now - lastFpsUpdate st > 500 \<longrightarrow>
            fps (fps_tick now st) = Fps (round (real (frames st + 1) * 1000 / (now - lastTime st)))
          \<and> reports (fps_tick now st) = reports st @ [fps (fps_tick now st)]
          \<and> frames (fps_tick now st) = 0
          \<and> lastFpsUpdate (fps_tick now st) = now
          \<and> lastTime (fps_tick now st) = now)
       \<and> (now - lastFpsUpdate st \<le> 500 \<longrightarrow>
            reports (fps_tick now st) = reports st
          \<and> fps (fps_tick now st) = fps st
          \<and> frames (fps_tick now st) = frames st + 1
          \<and> lastFpsUpdate (fps_tick now st) = lastFpsUpdate st
          \<and> lastTime (fps_tick now st) = lastTime st)"
  using assms by (auto simp: fps_tick_def Let_def)

theorem fps_report_witness:
  "fps (fps_tick 501 \<lparr>frames = 29, lastTime = 0, lastFpsUpdate = 0, fps = Fps 0, reports = []\<rparr>) = Fps 60
   \<and> reports (fps_tick 501 \<lparr>frames = 29, lastTime = 0, lastFpsUpdate = 0, fps = Fps 0, reports = []\<rparr>) = [Fps 60]
   \<and> frames (fps_tick 501 \<lparr>frames = 29, lastTime = 0, lastFpsUpdate = 0, fps = Fps 0, reports = []\<rparr>) = 0
   \<and> reports (fps_tick 400 \<lparr>frames = 29, lastTime = 0, lastFpsUpdate = 0, fps = Fps 0, reports = []\<rparr>) = []"
proof -
  let ?st = "\<lparr>frames = 29, lastTime = 0, lastFpsUpdate = 0, fps = Fps 0, reports = []\<rparr>"
  have h: "lastTime ?st \<le> lastFpsUpdate ?st" by simp
  have r: "round (30000 / 501 :: real) = 60"
    by (rule round_unique') simp
  show ?thesis
    using fps_report[OF h, of 501] fps_report[OF h, of 400] r by simp
qed

text \<open>
  C9 as stated fails at the threshold itself: after exactly 500 ms the test
  \<open>now - lastFpsUpdate > 500\<close> is false, so nothing is reported and nothing is reset.
\<close>

theorem fps_no_report_at_500_counterexample:
  "reports (fps_tick 500 \<lparr>frames = 29, lastTime = 0, lastFpsUpdate = 0, fps = Fps 0, reports = []\<rparr>) = []
   \<and> frames (fps_tick 500 \<lparr>frames = 29, lastTime = 0, lastFpsUpdate = 0, fps = Fps 0, reports = []\<rparr>) = 30
   \<and> lastFpsUpdate (fps_tick 500 \<lparr>frames = 29, lastTime = 0, lastFpsUpdate = 0, fps = Fps 0, reports = []\<rparr>) = 0"
  by (simp add: fps_tick_def Let_def)

section \<open>The gaze state machine (C2, C7)\<close>

lemma gazeListener_cancelled [simp]: "cancelled (gazeListener ev st) = cancelled st"
  by (cases "valid (gazeData ev)") (auto simp: gazeListener_def Let_def split: if_splits)

lemma gazeListener_lastOnScreenAt:
  "\<not> cancelled st \<Longrightarrow>
   lastOnScreenAt (gazeListener ev st) =
     (if inside_sample ev then clockInside ev else lastOnScreenAt st)"
  by (cases "valid (gazeData ev)") (auto simp: gazeListener_def inside_sample_def Let_def)

lemma gazeListener_offScreen:
  "\<not> cancelled st \<Longrightarrow>
   offScreen (gazeListener ev st) =
     (clockNow ev - lastOnScreenAt (gazeListener ev st) > OFFSCREEN_DELAY_MS)"
  by (cases "valid (gazeData ev)") (auto simp: gazeListener_def Let_def)

lemma run_gaze_snoc: "run_gaze (evs @ [ev]) st = gazeListener ev (run_gaze evs st)"
  by (simp add: run_gaze_def)

lemma run_gaze_cancelled [simp]: "cancelled (run_gaze evs st) = cancelled st"
  by (induction evs rule: rev_induct) (simp_all add: run_gaze_snoc, simp add: run_gaze_def)

lemma last_inside_snoc:
  "last_inside t0 (evs @ [ev]) = (if inside_sample ev then clockInside ev else last_inside t0 evs)"
  by (simp add: last_inside_def)

lemma run_gaze_lastOnScreenAt:
  "\<not> cancelled st \<Longrightarrow> lastOnScreenAt (run_gaze evs st) = last_inside (lastOnScreenAt st) evs"
proof (induction evs rule: rev_induct)
  case Nil
  then show ?case by (simp add: run_gaze_def last_inside_def)
next
  case (snoc ev evs)
  then show ?case
    by (simp add: run_gaze_snoc gazeListener_lastOnScreenAt last_inside_snoc)
qed

lemma run_gaze_offScreen:
  assumes "\<not> cancelled st" and "evs \<noteq> []"
  shows "offScreen (run_gaze evs st) =
     (clockNow (last evs) - last_inside (lastOnScreenAt st) evs > OFFSCREEN_DELAY_MS)"
proof -
  obtain es e where evs: "evs = es @ [e]"
    using assms(2) by (metis rev_exhaust)
  have nc: "\<not> cancelled (run_gaze es st)" using assms(1) by simp
  have "offScreen (run_gaze evs st) =
     (clockNow e - lastOnScreenAt (run_gaze evs st) > OFFSCREEN_DELAY_MS)"
    using gazeListener_offScreen[OF nc, of e] by (simp add: evs run_gaze_snoc)
  then show ?thesis
    using run_gaze_lastOnScreenAt[OF assms(1), of evs] by (simp add: evs)
qed

lemma valid_Some_iff: "valid d = Some (x, y) \<longleftrightarrow> d = Some (Number x, Number y)"
  by (cases d rule: valid.cases) auto

lemma valid_None_iff: "valid d = None \<longleftrightarrow> (\<forall>x y. d \<noteq> Some (Number x, Number y))"
  by (cases d rule: valid.cases) auto

lemma inside_widened: "inside vp x y = in_widened_viewport (view_W vp) (view_H vp) x y"
  by (simp add: inside_def margin_def in_widened_viewport_def)

lemma inside_sample_on_screen: "inside_sample ev = on_screen_sample ev"
  by (cases "gazeData ev" rule: valid.cases)
     (simp_all add: inside_sample_def on_screen_sample_def inside_widened split: jsval.splits)

lemma last_inside_on_screen: "last_inside t0 evs = last_on_screen t0 evs"
proof -
  have "filter inside_sample evs = filter on_screen_sample evs"
    by (rule filter_cong) (simp_all add: inside_sample_on_screen)
  then show ?thesis by (simp add: last_inside_def last_on_screen_def)
qed

text \<open>
  C2. While the listener is active, after any sequence of samples \<open>lastOnScreenAt\<close> is
  the time stored for the last sample with numeric \<open>x\<close> and \<open>y\<close> inside the viewport
  widened by 40 pixels on all four sides (the value it had before, when there is none),
  and after each sample \<open>offScreen\<close> holds if and only if the time read for that sample
  exceeds it by more than 250 ms. An invalid sample leaves \<open>lastOnScreenAt\<close> as it is.
  A valid sample outside the widened viewport that arrives within 250 ms of the last
  on-screen time, followed by a valid sample inside it, makes \<open>offScreen\<close> true at
  neither step.
\<close>

theorem gaze_offScreen_iff:
  assumes "\<not> cancelled st"
  shows "lastOnScreenAt (run_gaze evs st) = last_on_screen (lastOnScreenAt st) evs
       \<and> (evs \<noteq> [] \<longrightarrow>
            offScreen (run_gaze evs st) =
              (clockNow (last evs) - last_on_screen (lastOnScreenAt st) evs > 250))
       \<and> ((\<forall>x y. gazeData ev \<noteq> Some (Number x, Number y)) \<longrightarrow>
            lastOnScreenAt (gazeListener ev st) = lastOnScreenAt st)
       \<and> (gazeData e1 = Some (Number x1, Number y1)
            \<and> \<not> in_widened_viewport (view_W (view e1)) (view_H (view e1)) x1 y1
            \<and> gazeData e2 = Some (Number x2, Number y2)
            \<and> in_widened_viewport (view_W (view e2)) (view_H (view e2)) x2 y2
            \<and> clockNow e1 - lastOnScreenAt st \<le> 250
            \<and> clockNow e2 - clockInside e2 \<le> 250 \<longrightarrow>
            \<not> offScreen (run_gaze [e1] st) \<and> \<not> offScreen (run_gaze [e1, e2] st))"
proof (intro conjI impI)
  show "lastOnScreenAt (run_gaze evs st) = last_on_screen (lastOnScreenAt st) evs"
    using run_gaze_lastOnScreenAt[OF assms, of evs] by (simp add: last_inside_on_screen)
next
  assume "evs \<noteq> []"
  then show "offScreen (run_gaze evs st) =
              (clockNow (last evs) - last_on_screen (lastOnScreenAt st) evs > 250)"
    using run_gaze_offScreen[OF assms, of evs]
    by (simp add: last_inside_on_screen OFFSCREEN_DELAY_MS_def)
next
  assume "\<forall>x y. gazeData ev \<noteq> Some (Number x, Number y)"
  then have "\<not> inside_sample ev"
    by (simp add: inside_sample_def valid_None_iff[symmetric])
  then show "lastOnScreenAt (gazeListener ev st) = lastOnScreenAt st"
    using assms by (simp add: gazeListener_lastOnScreenAt)
next
  assume h: "gazeData e1 = Some (Number x1, Number y1)
            \<and> \<not> in_widened_viewport (view_W (view e1)) (view_H (view e1)) x1 y1
            \<and> gazeData e2 = Some (Number x2, Number y2)
            \<and> in_widened_viewport (view_W (view e2)) (view_H (view e2)) x2 y2
            \<and> clockNow e1 - lastOnScreenAt st \<le> 250
            \<and> clockNow e2 - clockInside e2 \<le> 250"
  then have s: "\<not> on_screen_sample e1" "on_screen_sample e2"
    by (simp_all add: on_screen_sample_def)
  show "\<not> offScreen (run_gaze [e1] st)"
    using run_gaze_offScreen[OF assms, of "[e1]"] h s
    by (simp add: last_inside_on_screen last_on_screen_def OFFSCREEN_DELAY_MS_def)
  show "\<not> offScreen (run_gaze [e1, e2] st)"
    using run_gaze_offScreen[OF assms, of "[e1, e2]"] h s
    by (simp add: last_inside_on_screen last_on_screen_def OFFSCREEN_DELAY_MS_def)
qed

lemma example_samples:
  "on_screen_sample (sample_at x y t) = (- 40 \<le> x \<and> x \<le> 1320 \<and> - 40 \<le> y \<and> y \<le> 760)"
  "\<not> on_screen_sample (no_sample_at t)"
  "clockNow (sample_at x y t) = t" "clockInside (sample_at x y t) = t"
  "clockNow (no_sample_at t) = t"
  "\<not> cancelled gaze_start" "lastOnScreenAt gaze_start = 0"
  by (auto simp: on_screen_sample_def in_widened_viewport_def sample_at_def no_sample_at_def
      gaze_start_def view_W_def view_H_def js_or_def)

theorem gaze_offScreen_iff_witness:
  "\<not> offScreen (run_gaze [sample_at (- 40) (- 40) 1000] gaze_start)
   \<and> offScreen (run_gaze [sample_at (- 41) 0 1000] gaze_start)
   \<and> offScreen (run_gaze [sample_at 0 (- 41) 1000] gaze_start)
   \<and> \<not> offScreen (run_gaze [sample_at 1320 760 1000] gaze_start)
   \<and> offScreen (run_gaze [sample_at 1321 0 1000] gaze_start)
   \<and> offScreen (run_gaze [sample_at 0 761 1000] gaze_start)
   \<and> \<not> offScreen (run_gaze [no_sample_at 250] gaze_start)
   \<and> offScreen (run_gaze [no_sample_at 251] gaze_start)
   \<and> \<not> offScreen (run_gaze [sample_at 100 100 0, sample_at 2000 100 100, sample_at 2000 100 200]
          gaze_start)
   \<and> \<not> offScreen (run_gaze [sample_at 100 100 0, sample_at 2000 100 100, sample_at 2000 100 250]
          gaze_start)
   \<and> offScreen (run_gaze [sample_at 100 100 0, sample_at 2000 100 100, sample_at 2000 100 251]
          gaze_start)
   \<and> lastOnScreenAt (run_gaze [sample_at 100 100 70, no_sample_at 500] gaze_start) = 70
   \<and> \<not> offScreen (run_gaze [sample_at 2000 100 100, sample_at 100 100 400] gaze_start)"
proof -
  note g = gaze_offScreen_iff[OF example_samples(6)]
  note o = g[THEN conjunct2, THEN conjunct1, rule_format]
  have 1: "\<not> offScreen (run_gaze [sample_at (- 40) (- 40) 1000] gaze_start)"
    using o[of "[sample_at (- 40) (- 40) 1000]"]
    by (simp add: last_on_screen_def example_samples)
  have 2: "offScreen (run_gaze [sample_at (- 41) 0 1000] gaze_start)"
    using o[of "[sample_at (- 41) 0 1000]"]
    by (simp add: last_on_screen_def example_samples)
  have 3: "offScreen (run_gaze [sample_at 0 (- 41) 1000] gaze_start)"
    using o[of "[sample_at 0 (- 41) 1000]"]
    by (simp add: last_on_screen_def example_samples)
  have 4: "\<not> offScreen (run_gaze [sample_at 1320 760 1000] gaze_start)"
    using o[of "[sample_at 1320 760 1000]"]
    by (simp add: last_on_screen_def example_samples)
  have 5: "offScreen (run_gaze [sample_at 1321 0 1000] gaze_start)"
    using o[of "[sample_at 1321 0 1000]"]
    by (simp add: last_on_screen_def example_samples)
  have 6: "offScreen (run_gaze [sample_at 0 761 1000] gaze_start)"
    using o[of "[sample_at 0 761 1000]"]
    by (simp add: last_on_screen_def example_samples)
  have 7: "\<not> offScreen (run_gaze [no_sample_at 250] gaze_start)"
    using o[of "[no_sample_at 250]"]
    by (simp add: last_on_screen_def example_samples)
  have 8: "offScreen (run_gaze [no_sample_at 251] gaze_start)"
    using o[of "[no_sample_at 251]"]
    by (simp add: last_on_screen_def example_samples)
  have 9: "\<not> offScreen (run_gaze [sample_at 100 100 0, sample_at 2000 100 100, sample_at 2000 100 200]
          gaze_start)"
    using o[of "[sample_at 100 100 0, sample_at 2000 100 100, sample_at 2000 100 200]"]
    by (simp add: last_on_screen_def example_samples)
  have 10: "\<not> offScreen (run_gaze [sample_at 100 100 0, sample_at 2000 100 100, sample_at 2000 100 250]
          gaze_start)"
    using o[of "[sample_at 100 100 0, sample_at 2000 100 100, sample_at 2000 100 250]"]
    by (simp add: last_on_screen_def example_samples)
  have 11: "offScreen (run_gaze [sample_at 100 100 0, sample_at 2000 100 100, sample_at 2000 100 251]
          gaze_start)"
    using o[of "[sample_at 100 100 0, sample_at 2000 100 100, sample_at 2000 100 251]"]
    by (simp add: last_on_screen_def example_samples)
  have 12: "lastOnScreenAt (run_gaze [sample_at 100 100 70, no_sample_at 500] gaze_start) = 70"
    using g[THEN conjunct1, of "[sample_at 100 100 70, no_sample_at 500]"]
    by (simp add: last_on_screen_def example_samples)
  have 13: "\<not> offScreen (run_gaze [sample_at 2000 100 100, sample_at 100 100 400] gaze_start)"
    using g[THEN conjunct2, THEN conjunct2, THEN conjunct2, rule_format,
        of "sample_at 2000 100 100" 2000 100 "sample_at 100 100 400" 100 100]
    by (simp add: sample_at_def in_widened_viewport_def view_W_def view_H_def js_or_def
        gaze_start_def)
  from 1 2 3 4 5 6 7 8 9 10 11 12 13 show ?thesis by blast
qed

text \<open>
  C7, as amended. For an invalid sample the active listener clears \<open>gazeXY\<close>, leaves
  \<open>lastOnScreenAt\<close> as it is, and recomputes \<open>offScreen\<close> from the current time; a
  cancelled listener changes nothing.
\<close>

theorem gaze_invalid_sample:
  assumes "valid (gazeData ev) = None"
  shows "(\<not> cancelled st \<longrightarrow>
            gazeListener ev st =
              st\<lparr>gazeXY := None, offScreen := (clockNow ev - lastOnScreenAt st > OFFSCREEN_DELAY_MS)\<rparr>)
       \<and> (cancelled st \<longrightarrow> gazeListener ev st = st)
       \<and> lastOnScreenAt (gazeListener ev st) = lastOnScreenAt st"
  using assms by (simp add: gazeListener_def Let_def)

theorem gaze_invalid_sample_witness:
  "gazeListener
     \<lparr>gazeData = None,
      view = \<lparr>innerWidth = 1280, docClientWidth = 1280, innerHeight = 720, docClientHeight = 720\<rparr>,
      clockInside = 100, clockNow = 100\<rparr>
     \<lparr>cancelled = False, lastOnScreenAt = 0, offScreen = False, gazeXY = Some (10, 20)\<rparr>
   = \<lparr>cancelled = False, lastOnScreenAt = 0, offScreen = False, gazeXY = None\<rparr>"
  using gaze_invalid_sample[of
     "\<lparr>gazeData = None,
      view = \<lparr>innerWidth = 1280, docClientWidth = 1280, innerHeight = 720, docClientHeight = 720\<rparr>,
      clockInside = 100, clockNow = 100\<rparr>"
     "\<lparr>cancelled = False, lastOnScreenAt = 0, offScreen = False, gazeXY = Some (10, 20)\<rparr>"]
  by (simp add: OFFSCREEN_DELAY_MS_def)

text \<open>
  C7 as stated fails for \<open>offScreen\<close>: an invalid sample that arrives more than 250 ms
  after the last on-screen time turns it from false to true.
\<close>

theorem gaze_invalid_sample_counterexample:
  "gazeListener
     \<lparr>gazeData = None,
      view = \<lparr>innerWidth = 1280, docClientWidth = 1280, innerHeight = 720, docClientHeight = 720\<rparr>,
      clockInside = 300, clockNow = 300\<rparr>
     \<lparr>cancelled = False, lastOnScreenAt = 0, offScreen = False, gazeXY = Some (10, 20)\<rparr>
   \<noteq> \<lparr>cancelled = False, lastOnScreenAt = 0, offScreen = False, gazeXY = Some (10, 20)\<rparr>
       \<lparr>gazeXY := None\<rparr>
   \<and> offScreen (gazeListener
     \<lparr>gazeData = None,
      view = \<lparr>innerWidth = 1280, docClientWidth = 1280, innerHeight = 720, docClientHeight = 720\<rparr>,
      clockInside = 300, clockNow = 300\<rparr>
     \<lparr>cancelled = False, lastOnScreenAt = 0, offScreen = False, gazeXY = Some (10, 20)\<rparr>)"
  by (simp add: gazeListener_def Let_def OFFSCREEN_DELAY_MS_def)

section \<open>The calibration controller (C8)\<close>

lemma clickPoint_counts:
  "calibrationCounts (clickPoint idx st) =
     js_set (calibrationCounts st) idx
       (min CALIBRATION_PER_POINT (js_get0 (calibrationCounts st) idx + 1))"
  by (simp add: clickPoint_def Let_def stopCalibration_def)

lemma clickPoint_calibrating:
  "calibrating (clickPoint idx st) =
     (calibrating st \<and> \<not> js_every_ge CALIBRATION_PER_POINT (calibrationCounts (clickPoint idx st)))"
  by (simp add: clickPoint_def Let_def stopCalibration_def)

lemma clicks_snoc: "clicks (idxs @ [idx]) st = clickPoint idx (clicks idxs st)"
  by (simp add: clicks_def)

lemma length_counts_of [simp]: "length (counts_of idxs) = 9"
  by (simp add: counts_of_def)

lemma counts_of_nth: "i < 9 \<Longrightarrow> counts_of idxs ! i = Some (min CALIBRATION_PER_POINT (count_list idxs i))"
  by (simp add: counts_of_def del: upt.simps)

lemma counts_of_Nil: "counts_of [] = replicate 9 (Some 0)"
  by (rule nth_equalityI) (simp_all add: counts_of_nth)

lemma counts_of_snoc:
  assumes "idx < 9"
  shows "js_set (counts_of idxs) idx (min CALIBRATION_PER_POINT (js_get0 (counts_of idxs) idx + 1))
           = counts_of (idxs @ [idx])"
proof (rule nth_equalityI)
  show "length (js_set (counts_of idxs) idx (min CALIBRATION_PER_POINT (js_get0 (counts_of idxs) idx + 1)))
      = length (counts_of (idxs @ [idx]))"
    using assms by (simp add: js_set_def)
next
  fix i
  assume "i < length (js_set (counts_of idxs) idx (min CALIBRATION_PER_POINT (js_get0 (counts_of idxs) idx + 1)))"
  then have i: "i < 9" using assms by (simp add: js_set_def)
  show "js_set (counts_of idxs) idx (min CALIBRATION_PER_POINT (js_get0 (counts_of idxs) idx + 1)) ! i
      = counts_of (idxs @ [idx]) ! i"
    using i assms
    by (auto simp add: js_set_def js_get0_def counts_of_nth nth_list_update min_def)
qed

lemma every_counts_of:
  "js_every_ge CALIBRATION_PER_POINT (counts_of idxs) = (\<forall>i<9. CALIBRATION_PER_POINT \<le> count_list idxs i)"
  by (auto simp add: js_every_ge_def counts_of_def list_all_iff simp del: upt.simps)

lemma clicks_from_start:
  assumes "\<forall>idx \<in> set idxs. idx < 9"
  shows "calibrationCounts (clicks idxs (startCalibration st)) = counts_of idxs
       \<and> calibrating (clicks idxs (startCalibration st)) =
           (\<not> (\<forall>i<9. CALIBRATION_PER_POINT \<le> count_list idxs i))"
  using assms
proof (induction idxs rule: rev_induct)
  case Nil
  have "\<exists>i::nat. i < 9" by (rule exI[of _ 0]) simp
  then show ?case
    by (simp add: clicks_def startCalibration_def counts_of_Nil CALIBRATION_PER_POINT_def)
next
  case (snoc idx idxs)
  then have ih: "calibrationCounts (clicks idxs (startCalibration st)) = counts_of idxs"
    "calibrating (clicks idxs (startCalibration st)) =
           (\<not> (\<forall>i<9. CALIBRATION_PER_POINT \<le> count_list idxs i))"
    and idx: "idx < 9" by auto
  have c: "calibrationCounts (clicks (idxs @ [idx]) (startCalibration st)) = counts_of (idxs @ [idx])"
    using counts_of_snoc[OF idx, of idxs] by (simp add: clicks_snoc clickPoint_counts ih)
  have mono: "\<And>i. count_list idxs i \<le> count_list (idxs @ [idx]) i" by simp
  have "calibrating (clicks (idxs @ [idx]) (startCalibration st)) =
      (\<not> (\<forall>i<9. CALIBRATION_PER_POINT \<le> count_list idxs i)
        \<and> \<not> (\<forall>i<9. CALIBRATION_PER_POINT \<le> count_list (idxs @ [idx]) i))"
    using c by (simp add: clicks_snoc clickPoint_calibrating[of idx] ih every_counts_of del: count_list_append)
  also have "\<dots> = (\<not> (\<forall>i<9. CALIBRATION_PER_POINT \<le> count_list (idxs @ [idx]) i))"
    using mono by (meson le_trans)
  finally show ?case using c by simp
qed

text \<open>
  C8. \<open>startCalibration\<close> sets the nine counts to zero, enters the calibrating state and
  clears the predictor's training data when a predictor is present. A click on a point
  sets its count to the minimum of the quota and the count plus one and changes no other
  count, so a click on a point at quota changes nothing. When after a click every count
  has reached the quota, the controller is no longer calibrating. After any clicks that
  follow a start, each count is the number of clicks on its point capped at the quota, and
  the controller is calibrating exactly as long as some point is below the quota.
\<close>

theorem calibration_controller:
  shows "calibrationCounts (startCalibration st) = replicate 9 (Some 0)
       \<and> calibrating (startCalibration st)
       \<and> (wg st = Some w \<longrightarrow>
            (\<exists>w'. wg (startCalibration st) = Some w' \<and> trainedData w' = 0))
       \<and> (idx < length (calibrationCounts st) \<and> calibrationCounts st ! idx = Some c \<longrightarrow>
            calibrationCounts (clickPoint idx st) =
              (calibrationCounts st)[idx := Some (min CALIBRATION_PER_POINT (c + 1))])
       \<and> (idx < length (calibrationCounts st)
            \<and> calibrationCounts st ! idx = Some CALIBRATION_PER_POINT \<longrightarrow>
            calibrationCounts (clickPoint idx st) = calibrationCounts st)
       \<and> ((\<forall>e \<in> set (calibrationCounts (clickPoint idx st)).
               \<exists>n. e = Some n \<and> CALIBRATION_PER_POINT \<le> n) \<longrightarrow>
            \<not> calibrating (clickPoint idx st))
       \<and> ((\<forall>i \<in> set idxs. i < 9) \<longrightarrow>
            calibrationCounts (clicks idxs (startCalibration st)) = counts_of idxs
            \<and> calibrating (clicks idxs (startCalibration st)) =
                (\<not> (\<forall>i<9. CALIBRATION_PER_POINT \<le> count_list idxs i)))"
proof (intro conjI impI)
  show "calibrationCounts (startCalibration st) = replicate 9 (Some 0)"
    and "calibrating (startCalibration st)"
    by (simp_all add: startCalibration_def)
next
  assume "wg st = Some w"
  then show "\<exists>w'. wg (startCalibration st) = Some w' \<and> trainedData w' = 0"
    by (simp add: startCalibration_def)
next
  assume "idx < length (calibrationCounts st) \<and> calibrationCounts st ! idx = Some c"
  then show "calibrationCounts (clickPoint idx st) =
              (calibrationCounts st)[idx := Some (min CALIBRATION_PER_POINT (c + 1))]"
    by (simp add: clickPoint_counts js_set_def js_get0_def)
next
  assume a: "idx < length (calibrationCounts st)
            \<and> calibrationCounts st ! idx = Some CALIBRATION_PER_POINT"
  then have "calibrationCounts (clickPoint idx st) =
      (calibrationCounts st)[idx := calibrationCounts st ! idx]"
    by (simp add: clickPoint_counts js_set_def js_get0_def)
  then show "calibrationCounts (clickPoint idx st) = calibrationCounts st"
    by simp
next
  assume "\<forall>e \<in> set (calibrationCounts (clickPoint idx st)).
               \<exists>n. e = Some n \<and> CALIBRATION_PER_POINT \<le> n"
  then have "js_every_ge CALIBRATION_PER_POINT (calibrationCounts (clickPoint idx st))"
    by (auto simp: js_every_ge_def list_all_iff)
  then show "\<not> calibrating (clickPoint idx st)"
    using clickPoint_calibrating[of idx st] by simp
next
  assume "\<forall>i \<in> set idxs. i < 9"
  from clicks_from_start[OF this, of st]
  show "calibrationCounts (clicks idxs (startCalibration st)) = counts_of idxs"
    and "calibrating (clicks idxs (startCalibration st)) =
                (\<not> (\<forall>i<9. CALIBRATION_PER_POINT \<le> count_list idxs i))"
    by simp_all
qed

lemma all_less_9: "(\<forall>i<9. P (i::nat)) = (P 0 \<and> P 1 \<and> P 2 \<and> P 3 \<and> P 4 \<and> P 5 \<and> P 6 \<and> P 7 \<and> P 8)"
  by (auto simp: eval_nat_numeral All_less_Suc)

theorem calibration_controller_witness:
  "\<not> calibrating (clicks
       [0, 0, 0, 0, 0, 1, 1, 1, 1, 1, 2, 2, 2, 2, 2, 3, 3, 3, 3, 3, 4, 4, 4, 4, 4,
        5, 5, 5, 5, 5, 6, 6, 6, 6, 6, 7, 7, 7, 7, 7, 8, 8, 8, 8, 8]
       (startCalibration
          \<lparr>calibrating = False, calibrationCounts = replicate 9 (Some 3), showGazeDot = False,
           wg = Some \<lparr>trainedData = 17, mouseListeners = False, predictionPoints = False\<rparr>\<rparr>))
   \<and> calibrating (clicks
       [0, 0, 0, 0, 0, 1, 1, 1, 1, 1, 2, 2, 2, 2, 2, 3, 3, 3, 3, 3, 4, 4, 4, 4, 4,
        5, 5, 5, 5, 5, 6, 6, 6, 6, 6, 7, 7, 7, 7, 7, 8, 8, 8, 8, 0]
       (startCalibration
          \<lparr>calibrating = False, calibrationCounts = replicate 9 (Some 3), showGazeDot = False,
           wg = Some \<lparr>trainedData = 17, mouseListeners = False, predictionPoints = False\<rparr>\<rparr>))
   \<and> calibrationCounts (clickPoint 2
          \<lparr>calibrating = True,
           calibrationCounts = [Some 5, Some 5, Some 4, Some 5, Some 5, Some 5, Some 5, Some 5, Some 5],
           showGazeDot = False, wg = None\<rparr>)
       = replicate 9 (Some 5)
   \<and> \<not> calibrating (clickPoint 2
          \<lparr>calibrating = True,
           calibrationCounts = [Some 5, Some 5, Some 4, Some 5, Some 5, Some 5, Some 5, Some 5, Some 5],
           showGazeDot = False, wg = None\<rparr>)
   \<and> calibrationCounts (clickPoint 1
          \<lparr>calibrating = True,
           calibrationCounts = [Some 5, Some 5, Some 4, Some 5, Some 5, Some 5, Some 5, Some 5, Some 5],
           showGazeDot = False, wg = None\<rparr>)
       = [Some 5, Some 5, Some 4, Some 5, Some 5, Some 5, Some 5, Some 5, Some 5]
   \<and> (\<exists>w'. wg (startCalibration
          \<lparr>calibrating = False, calibrationCounts = replicate 9 (Some 3), showGazeDot = False,
           wg = Some \<lparr>trainedData = 17, mouseListeners = False, predictionPoints = False\<rparr>\<rparr>)
        = Some w' \<and> trainedData w' = 0)"
proof -
  let ?st0 = "\<lparr>calibrating = False, calibrationCounts = replicate 9 (Some 3), showGazeDot = False,
           wg = Some \<lparr>trainedData = 17, mouseListeners = False, predictionPoints = False\<rparr>\<rparr>"
  let ?st1 = "\<lparr>calibrating = True,
           calibrationCounts = [Some 5, Some 5, Some 4, Some 5, Some 5, Some 5, Some 5, Some 5, Some 5],
           showGazeDot = False, wg = None\<rparr>"
  let ?full = "[0, 0, 0, 0, 0, 1, 1, 1, 1, 1, 2, 2, 2, 2, 2, 3, 3, 3, 3, 3, 4, 4, 4, 4, 4,
        5, 5, 5, 5, 5, 6, 6, 6, 6, 6, 7, 7, 7, 7, 7, 8, 8, 8, 8, 8 :: nat]"
  let ?short = "[0, 0, 0, 0, 0, 1, 1, 1, 1, 1, 2, 2, 2, 2, 2, 3, 3, 3, 3, 3, 4, 4, 4, 4, 4,
        5, 5, 5, 5, 5, 6, 6, 6, 6, 6, 7, 7, 7, 7, 7, 8, 8, 8, 8, 0 :: nat]"
  have 1: "\<not> calibrating (clicks ?full (startCalibration ?st0))"
    using calibration_controller[of ?st0 _ _ _ ?full]
    by (simp add: all_less_9 CALIBRATION_PER_POINT_def)
  have 2: "calibrating (clicks ?short (startCalibration ?st0))"
    using calibration_controller[of ?st0 _ _ _ ?short]
    by (simp add: all_less_9 CALIBRATION_PER_POINT_def)
  have 3: "calibrationCounts (clickPoint 2 ?st1) = replicate 9 (Some 5)"
    using calibration_controller[of ?st1 _ 2 4]
    by (simp add: CALIBRATION_PER_POINT_def eval_nat_numeral)
  have 4: "\<not> calibrating (clickPoint 2 ?st1)"
    using calibration_controller[of ?st1 _ 2 4] 3
    by (simp add: CALIBRATION_PER_POINT_def)
  have 5: "calibrationCounts (clickPoint 1 ?st1)
       = [Some 5, Some 5, Some 4, Some 5, Some 5, Some 5, Some 5, Some 5, Some 5]"
    using calibration_controller[of ?st1 _ 1 5]
    by (simp add: CALIBRATION_PER_POINT_def)
  have 6: "\<exists>w'. wg (startCalibration ?st0) = Some w' \<and> trainedData w' = 0"
    using calibration_controller[of ?st0 "\<lparr>trainedData = 17, mouseListeners = False, predictionPoints = False\<rparr>"]
    by simp
  from 1 2 3 4 5 6 show ?thesis by blast
qed

section \<open>The nearest-neighbour wireframe (C1, C10)\<close>

subsection \<open>The invariant of the inner loop\<close>

lemma best_okD:
  assumes "best_ok pts i m best"
  shows "length best = min CONNECT_K (others m i)"
    and "sorted (map fst best)"
    and "distinct (map snd best)"
    and "\<And>e. e \<in> set best \<Longrightarrow> snd e < m"
    and "\<And>e. e \<in> set best \<Longrightarrow> snd e \<noteq> i"
    and "\<And>e. e \<in> set best \<Longrightarrow> fst e = dist2 (pts ! i) (pts ! snd e)"
    and "\<And>j e. j < m \<Longrightarrow> j \<noteq> i \<Longrightarrow> j \<notin> snd ` set best \<Longrightarrow> e \<in> set best
           \<Longrightarrow> fst e \<le> dist2 (pts ! i) (pts ! j)"
  using assms unfolding best_ok_def by blast+

lemma best_okI:
  assumes "length best = min CONNECT_K (others m i)"
    and "sorted (map fst best)"
    and "distinct (map snd best)"
    and "\<And>e. e \<in> set best \<Longrightarrow> snd e < m \<and> snd e \<noteq> i \<and> fst e = dist2 (pts ! i) (pts ! snd e)"
    and "\<And>j e. j < m \<Longrightarrow> j \<noteq> i \<Longrightarrow> j \<notin> snd ` set best \<Longrightarrow> e \<in> set best
           \<Longrightarrow> fst e \<le> dist2 (pts ! i) (pts ! j)"
  shows "best_ok pts i m best"
  using assms unfolding best_ok_def by blast

lemma card_others: "card {j. j < m \<and> j \<noteq> i} = others m i"
proof (cases "i < m")
  case True
  have "{j. j < m \<and> j \<noteq> i} = {..<m} - {i}" by auto
  then show ?thesis using True by (simp add: others_def)
next
  case False
  then have "{j. j < m \<and> j \<noteq> i} = {..<m}" by auto
  then show ?thesis using False by (simp add: others_def)
qed

lemma distinct_map_sort_key:
  "distinct (map g (sort_key f xs)) = distinct (map g xs)"
  by (simp add: distinct_map)

lemma best_covers:
  assumes ok: "best_ok pts i m best" and len: "length best = others m i"
  shows "snd ` set best = {j. j < m \<and> j \<noteq> i}"
proof (rule card_subset_eq)
  show "finite {j. j < m \<and> j \<noteq> i}" by simp
  show "snd ` set best \<subseteq> {j. j < m \<and> j \<noteq> i}"
    using best_okD(4,5)[OF ok] by auto
  have "card (snd ` set best) = length best"
    using best_okD(3)[OF ok] distinct_card[of "map snd best"] by simp
  then show "card (snd ` set best) = card {j. j < m \<and> j \<noteq> i}"
    using len by (simp add: card_others)
qed

lemma best_ok_init: "best_ok pts i 0 []"
  by (simp add: best_ok_def others_def)

lemma best_ok_skip:
  assumes ok: "best_ok pts i m best" and eq: "i = m"
  shows "best_ok pts i (Suc m) (scan_step pts i best m)"
proof -
  have step: "scan_step pts i best m = best" using eq by (simp add: scan_step_def)
  have o: "others (Suc m) i = others m i" using eq by (simp add: others_def)
  show ?thesis
    unfolding step
  proof (rule best_okI)
    show "length best = min CONNECT_K (others (Suc m) i)"
      using best_okD(1)[OF ok] o by simp
    show "sorted (map fst best)" "distinct (map snd best)"
      using best_okD(2,3)[OF ok] by simp_all
  next
    fix e assume "e \<in> set best"
    then show "snd e < Suc m \<and> snd e \<noteq> i \<and> fst e = dist2 (pts ! i) (pts ! snd e)"
      using best_okD(4,5,6)[OF ok, of e] by simp
  next
    fix j e assume j: "j < Suc m" "j \<noteq> i" "j \<notin> snd ` set best" "e \<in> set best"
    then have "j < m" using eq by simp
    then show "fst e \<le> dist2 (pts ! i) (pts ! j)"
      using best_okD(7)[OF ok] j by blast
  qed
qed

lemma best_ok_push:
  assumes ok: "best_ok pts i m best" and ne: "i \<noteq> m" and short: "length best < CONNECT_K"
  shows "best_ok pts i (Suc m) (scan_step pts i best m)"
proof -
  define d2 where "d2 = dist2 (pts ! i) (pts ! m)"
  define new where "new = sort_key fst (best @ [(d2, m)])"
  have step: "scan_step pts i best m = new"
    using ne short by (simp add: scan_step_def new_def d2_def Let_def)
  have setn: "set new = insert (d2, m) (set best)" by (simp add: new_def)
  have len: "length best = others m i" using best_okD(1)[OF ok] short by linarith
  have cov: "snd ` set best = {j. j < m \<and> j \<noteq> i}" by (rule best_covers[OF ok len])
  have o: "others (Suc m) i = Suc (others m i)" using ne by (auto simp: others_def)
  have fresh: "m \<notin> snd ` set best" using cov by simp
  show ?thesis
    unfolding step
  proof (rule best_okI)
    have "length new = Suc (length best)" by (simp add: new_def)
    then show "length new = min CONNECT_K (others (Suc m) i)"
      using len short o by linarith
    show "sorted (map fst new)" by (simp add: new_def)
    show "distinct (map snd new)"
      unfolding new_def distinct_map_sort_key using best_okD(3)[OF ok] fresh by simp
  next
    fix e assume "e \<in> set new"
    then consider "e = (d2, m)" | "e \<in> set best" by (auto simp: setn)
    then show "snd e < Suc m \<and> snd e \<noteq> i \<and> fst e = dist2 (pts ! i) (pts ! snd e)"
    proof cases
      case 1
      then show ?thesis using ne by (simp add: d2_def)
    next
      case 2
      then show ?thesis using best_okD(4,5,6)[OF ok, of e] by simp
    qed
  next
    fix j e assume j: "j < Suc m" "j \<noteq> i" "j \<notin> snd ` set new" "e \<in> set new"
    then have "j \<noteq> m" "j \<notin> snd ` set best" by (auto simp: setn)
    with j have "j \<in> {j. j < m \<and> j \<noteq> i}" by auto
    with cov \<open>j \<notin> snd ` set best\<close> have False by simp
    then show "fst e \<le> dist2 (pts ! i) (pts ! j)" ..
  qed
qed

lemma best_ok_full:
  assumes ok: "best_ok pts i m best" and ne: "i \<noteq> m" and full: "\<not> length best < CONNECT_K"
  shows "best_ok pts i (Suc m) (scan_step pts i best m)"
proof -
  define d2 where "d2 = dist2 (pts ! i) (pts ! m)"
  have lenK: "length best = CONNECT_K" using best_okD(1)[OF ok] full by linarith
  then have "best \<noteq> []" by (auto simp: CONNECT_K_def)
  then obtain bs l where best: "best = bs @ [l]" by (metis rev_exhaust)
  have lbs: "length bs = CONNECT_K - 1" using lenK by (simp add: best)
  have worst: "best ! (CONNECT_K - 1) = l"
    unfolding best lbs[symmetric] by (rule nth_append_length)
  have oK: "CONNECT_K \<le> others m i" using best_okD(1)[OF ok] lenK by linarith
  have o: "others (Suc m) i = Suc (others m i)" using ne by (auto simp: others_def)
  have "sorted (map fst bs @ [fst l])" using best_okD(2)[OF ok] by (simp add: best)
  then have le_bs: "\<And>e. e \<in> set bs \<Longrightarrow> fst e \<le> fst l"
    by (auto simp: sorted_append)
  have le_l: "\<And>e. e \<in> set best \<Longrightarrow> fst e \<le> fst l"
    using le_bs by (auto simp: best)
  have l_in: "l \<in> set best" by (simp add: best)
  show ?thesis
  proof (cases "d2 < fst l")
    case True
    define new where "new = sort_key fst (bs @ [(d2, m)])"
    have "best[CONNECT_K - 1 := (d2, m)] = bs @ [(d2, m)]"
      unfolding best lbs[symmetric] by (rule list_update_length)
    then have step: "scan_step pts i best m = new"
      using ne full True worst by (simp add: scan_step_def new_def d2_def Let_def)
    have setn: "set new = insert (d2, m) (set bs)" by (simp add: new_def)
    have bs_sub: "set bs \<subseteq> set best" by (auto simp: best)
    have fresh: "m \<notin> snd ` set bs" using best_okD(4)[OF ok] bs_sub by fastforce
    show ?thesis
      unfolding step
    proof (rule best_okI)
      have "length new = length best" by (simp add: new_def best)
      then show "length new = min CONNECT_K (others (Suc m) i)"
        using lenK oK o by linarith
      show "sorted (map fst new)" by (simp add: new_def)
      have "distinct (map snd bs)" using best_okD(3)[OF ok] by (simp add: best)
      then show "distinct (map snd new)"
        unfolding new_def distinct_map_sort_key using fresh by simp
    next
      fix e assume "e \<in> set new"
      then consider "e = (d2, m)" | "e \<in> set best" using bs_sub by (auto simp: setn)
      then show "snd e < Suc m \<and> snd e \<noteq> i \<and> fst e = dist2 (pts ! i) (pts ! snd e)"
      proof cases
        case 1
        then show ?thesis using ne by (simp add: d2_def)
      next
        case 2
        then show ?thesis using best_okD(4,5,6)[OF ok, of e] by simp
      qed
    next
      fix j e assume j: "j < Suc m" "j \<noteq> i" "j \<notin> snd ` set new" and e: "e \<in> set new"
      from j have jm: "j < m" and jbs: "j \<notin> snd ` set bs" by (auto simp: setn less_Suc_eq)
      from e consider "e = (d2, m)" | "e \<in> set bs" by (auto simp: setn)
      then have el: "fst e \<le> fst l"
      proof cases
        case 1
        then show ?thesis using True by simp
      next
        case 2
        then show ?thesis by (rule le_bs)
      qed
      show "fst e \<le> dist2 (pts ! i) (pts ! j)"
      proof (cases "j = snd l")
        case True
        then have "fst l = dist2 (pts ! i) (pts ! j)" using best_okD(6)[OF ok l_in] by simp
        with el show ?thesis by simp
      next
        case False
        then have "j \<notin> snd ` set best" using jbs by (auto simp: best)
        then have "fst l \<le> dist2 (pts ! i) (pts ! j)"
          using best_okD(7)[OF ok jm j(2) _ l_in] by simp
        with el show ?thesis by simp
      qed
    qed
  next
    case False
    then have step: "scan_step pts i best m = best"
      using ne full worst by (simp add: scan_step_def d2_def Let_def)
    show ?thesis
      unfolding step
    proof (rule best_okI)
      show "length best = min CONNECT_K (others (Suc m) i)"
        using lenK oK o by linarith
      show "sorted (map fst best)" "distinct (map snd best)"
        using best_okD(2,3)[OF ok] by simp_all
    next
      fix e assume "e \<in> set best"
      then show "snd e < Suc m \<and> snd e \<noteq> i \<and> fst e = dist2 (pts ! i) (pts ! snd e)"
        using best_okD(4,5,6)[OF ok, of e] by simp
    next
      fix j e assume j: "j < Suc m" "j \<noteq> i" "j \<notin> snd ` set best" and e: "e \<in> set best"
      show "fst e \<le> dist2 (pts ! i) (pts ! j)"
      proof (cases "j = m")
        case True
        have "fst e \<le> fst l" using e le_l by simp
        also have "fst l \<le> d2" using False by simp
        finally show ?thesis using True by (simp add: d2_def)
      next
        case False
        then have "j < m" using j(1) by simp
        then show ?thesis using best_okD(7)[OF ok _ j(2,3) e] by simp
      qed
    qed
  qed
qed

lemma best_ok_step:
  "best_ok pts i m best \<Longrightarrow> best_ok pts i (Suc m) (scan_step pts i best m)"
  using best_ok_skip best_ok_push best_ok_full by blast

lemma best_ok_scan: "best_ok pts i m (foldl (scan_step pts i) [] [0..<m])"
  by (induction m) (simp_all add: best_ok_init best_ok_step)

lemma best_ok_nearest: "best_ok pts i (length pts) (nearest pts i)"
  unfolding nearest_def by (rule best_ok_scan)

subsection \<open>The edge set\<close>

lemma set_set_add [simp]: "set (set_add es e) = insert e (set es)"
  by (auto simp: set_add_def)

lemma distinct_set_add [simp]: "distinct (set_add es e) = distinct es"
  by (auto simp: set_add_def)

lemma length_set_add: "length (set_add es e) \<le> Suc (length es)"
  by (simp add: set_add_def)

lemma emit_Nil [simp]: "emit i es [] = es"
  by (simp add: emit_def)

lemma emit_snoc: "emit i es (best @ [dj]) = set_add (emit i es best) (canon i (snd dj))"
  by (simp add: emit_def)

lemma set_emit: "set (emit i es best) = set es \<union> canon i ` snd ` set best"
  by (induction best rule: rev_induct) (auto simp: emit_snoc)

lemma distinct_emit: "distinct (emit i es best) = distinct es"
  by (induction best rule: rev_induct) (simp_all add: emit_snoc)

lemma length_emit: "length (emit i es best) \<le> length es + length best"
proof (induction best rule: rev_induct)
  case Nil
  then show ?case by (simp add: emit_def)
next
  case (snoc dj best)
  have "length (emit i es (best @ [dj])) \<le> Suc (length (emit i es best))"
    unfolding emit_snoc by (rule length_set_add)
  with snoc show ?case by simp
qed

lemma edges_upto_Suc: "edges_upto pts (Suc m) = emit m (edges_upto pts m) (nearest pts m)"
  by (simp add: edges_upto_def)

lemma knn_edges_upto: "knn_edges pts = edges_upto pts (length pts)"
  by (simp add: knn_edges_def edges_upto_def)

lemma set_edges_upto: "set (edges_upto pts m) = (\<Union>i<m. canon i ` nbrs pts i)"
proof (induction m)
  case 0
  then show ?case by (simp add: edges_upto_def)
next
  case (Suc m)
  have "{..<Suc m} = insert m {..<m}" by auto
  then show ?case
    using Suc by (auto simp: edges_upto_Suc set_emit nbrs_def)
qed

lemma distinct_edges_upto: "distinct (edges_upto pts m)"
  by (induction m) (simp_all add: edges_upto_Suc distinct_emit, simp add: edges_upto_def)

lemma length_edges_upto:
  "length (edges_upto pts m) \<le> (\<Sum>i<m. length (nearest pts i))"
proof (induction m)
  case 0
  then show ?case by (simp add: edges_upto_def)
next
  case (Suc m)
  have "length (edges_upto pts (Suc m)) \<le> length (edges_upto pts m) + length (nearest pts m)"
    unfolding edges_upto_Suc by (rule length_emit)
  with Suc show ?case by simp
qed

lemma nbrs_facts:
  shows nbrs_bound: "j \<in> nbrs pts i \<Longrightarrow> j < length pts \<and> j \<noteq> i"
    and card_nbrs: "card (nbrs pts i) = length (nearest pts i)"
    and finite_nbrs: "finite (nbrs pts i)"
proof -
  note ok = best_ok_nearest[of pts i]
  show "j \<in> nbrs pts i \<Longrightarrow> j < length pts \<and> j \<noteq> i"
    using best_okD(4,5)[OF ok] by (auto simp: nbrs_def)
  show "card (nbrs pts i) = length (nearest pts i)"
    using best_okD(3)[OF ok] distinct_card[of "map snd (nearest pts i)"] by (simp add: nbrs_def)
  show "finite (nbrs pts i)" by (simp add: nbrs_def)
qed

lemma length_nearest: "i < length pts \<Longrightarrow> length (nearest pts i) = min CONNECT_K (length pts - 1)"
  using best_okD(1)[OF best_ok_nearest[of pts i]] by (simp add: others_def)

lemma canon_less: "i \<noteq> j \<Longrightarrow> fst (canon i j) < snd (canon i j)"
  by (simp add: canon_def)

lemma canon_cases: "canon i j = (i, j) \<or> canon i j = (j, i)"
  by (simp add: canon_def)

lemma edges_ordered:
  assumes "(a, b) \<in> set (knn_edges pts)"
  shows "a < b \<and> b < length pts"
proof -
  from assms obtain i j where i: "i < length pts" and j: "j \<in> nbrs pts i" and c: "(a, b) = canon i j"
    by (auto simp: knn_edges_upto set_edges_upto)
  have "j < length pts" "j \<noteq> i" using nbrs_bound[OF j] by simp_all
  then show ?thesis using i c by (auto simp: canon_def split: if_splits)
qed

lemma directed_card:
  "card (SIGMA i:{..<n}. nbrs pts i) = (\<Sum>i<n. length (nearest pts i))"
  by (simp add: finite_nbrs card_nbrs)

lemma directed_covered:
  "(SIGMA i:{..<length pts}. nbrs pts i) \<subseteq> set (knn_edges pts) \<union> prod.swap ` set (knn_edges pts)"
proof
  fix p assume p: "p \<in> (SIGMA i:{..<length pts}. nbrs pts i)"
  obtain i j where ij: "p = (i, j)" by (cases p)
  with p have i: "i < length pts" and j: "j \<in> nbrs pts i" by auto
  then have c: "canon i j \<in> set (knn_edges pts)"
    by (auto simp: knn_edges_upto set_edges_upto)
  from canon_cases[of i j] show "p \<in> set (knn_edges pts) \<union> prod.swap ` set (knn_edges pts)"
  proof
    assume "canon i j = (i, j)"
    with c show ?thesis by (simp add: ij)
  next
    assume "canon i j = (j, i)"
    with c have "(j, i) \<in> set (knn_edges pts)" by simp
    then have "prod.swap (j, i) \<in> prod.swap ` set (knn_edges pts)" by (rule imageI)
    then show ?thesis by (simp add: ij)
  qed
qed

lemma edges_lower:
  "(\<Sum>i<length pts. length (nearest pts i)) \<le> 2 * length (knn_edges pts)"
proof -
  let ?E = "set (knn_edges pts)"
  have "card (SIGMA i:{..<length pts}. nbrs pts i) \<le> card (?E \<union> prod.swap ` ?E)"
    by (rule card_mono[OF _ directed_covered]) simp
  also have "\<dots> \<le> card ?E + card (prod.swap ` ?E)" by (rule card_Un_le)
  also have "\<dots> \<le> card ?E + card ?E" by (simp add: card_image_le)
  also have "\<dots> \<le> 2 * length (knn_edges pts)" using card_length[of "knn_edges pts"] by simp
  finally show ?thesis by (simp add: directed_card)
qed

lemma sum_nearest:
  assumes "CONNECT_K + 1 \<le> length pts"
  shows "(\<Sum>i<length pts. length (nearest pts i)) = length pts * CONNECT_K"
proof -
  have "\<And>i. i < length pts \<Longrightarrow> length (nearest pts i) = CONNECT_K"
    using assms by (simp add: length_nearest)
  then show ?thesis by simp
qed

lemma pairs_finite: "finite {(a, b). a < b \<and> b < (n::nat)}"
  by (rule finite_subset[of _ "{..<n} \<times> {..<n}"]) auto

lemma card_pairs: "2 * card {(a, b). a < b \<and> b < (n::nat)} = n * (n - 1)"
proof (induction n)
  case 0
  then show ?case by simp
next
  case (Suc n)
  have split: "{(a, b). a < b \<and> b < Suc n} = {(a, b). a < b \<and> b < n} \<union> (\<lambda>a. (a, n)) ` {..<n}"
    by (auto simp: less_Suc_eq)
  have disj: "{(a, b). a < b \<and> b < n} \<inter> (\<lambda>a. (a, n)) ` {..<n} = {}" by auto
  have "card ((\<lambda>a. (a, n)) ` {..<n}) = n"
    by (simp add: card_image inj_on_def)
  then have "card {(a, b). a < b \<and> b < Suc n} = card {(a, b). a < b \<and> b < n} + n"
    unfolding split using card_Un_disjoint[OF pairs_finite _ disj] by simp
  then have "2 * card {(a, b). a < b \<and> b < Suc n} = n * (n - 1) + 2 * n"
    using Suc by simp
  also have "\<dots> = Suc n * (Suc n - 1)" by (cases n) simp_all
  finally show ?case .
qed

lemma nbrs_small:
  assumes "length pts \<le> CONNECT_K + 1" and "i < length pts"
  shows "nbrs pts i = {j. j < length pts \<and> j \<noteq> i}"
proof -
  have "length (nearest pts i) = others (length pts) i"
    using best_okD(1)[OF best_ok_nearest[of pts i]] assms by (simp add: others_def)
  from best_covers[OF best_ok_nearest this] show ?thesis by (simp add: nbrs_def)
qed

lemma edges_small:
  assumes "length pts \<le> CONNECT_K + 1"
  shows "set (knn_edges pts) = {(a, b). a < b \<and> b < length pts}"
proof (intro equalityI subsetI)
  fix p assume "p \<in> set (knn_edges pts)"
  then show "p \<in> {(a, b). a < b \<and> b < length pts}"
    using edges_ordered[of "fst p" "snd p" pts] by auto
next
  fix p assume "p \<in> {(a, b). a < b \<and> b < length pts}"
  then obtain a b where p: "p = (a, b)" and ab: "a < b" "b < length pts" by auto
  then have a: "a < length pts" by simp
  have "b \<in> nbrs pts a" using nbrs_small[OF assms a] ab by simp
  then have "canon a b \<in> set (knn_edges pts)"
    using a by (auto simp: knn_edges_upto set_edges_upto)
  then show "p \<in> set (knn_edges pts)" using ab by (simp add: p canon_def)
qed

lemma distinct_knn_edges: "distinct (knn_edges pts)"
  by (simp add: knn_edges_upto distinct_edges_upto)

lemma length_edges_small:
  assumes "length pts \<le> CONNECT_K + 1"
  shows "length (knn_edges pts) = length pts * (length pts - 1) div 2"
proof -
  have "length (knn_edges pts) = card (set (knn_edges pts))"
    using distinct_card[OF distinct_knn_edges, of pts] by simp
  then have "2 * length (knn_edges pts) = length pts * (length pts - 1)"
    using card_pairs[of "length pts"] by (simp add: edges_small[OF assms])
  then show ?thesis by simp
qed

subsection \<open>The string keys of the edge set determine the edges\<close>

lemma undecimal_snoc: "undecimal (s @ [c]) = 10 * undecimal s + (of_char c - 48)"
  by (simp add: undecimal_def)

lemma of_digit_char: "d < 10 \<Longrightarrow> of_char (digit_char d) = (48 + d :: nat)"
  by (simp add: digit_char_def)

lemma decimal_small: "n < 10 \<Longrightarrow> decimal n = [digit_char n]"
  by (subst decimal.simps) simp

lemma decimal_large: "\<not> n < 10 \<Longrightarrow> decimal n = decimal (n div 10) @ [digit_char (n mod 10)]"
  by (subst decimal.simps) simp

lemma undecimal_decimal: "undecimal (decimal n) = n"
proof (induction n rule: decimal.induct)
  case (1 n)
  show ?case
  proof (cases "n < 10")
    case True
    have "undecimal [digit_char n] = of_char (digit_char n) - 48"
      by (simp add: undecimal_def)
    then show ?thesis
      unfolding decimal_small[OF True] of_digit_char[OF True] by simp
  next
    case False
    have m: "n mod 10 < 10" by simp
    have ih: "undecimal (decimal (n div 10)) = n div 10" by (rule "1.IH"[OF False])
    have "undecimal (decimal n) = 10 * undecimal (decimal (n div 10)) + (of_char (digit_char (n mod 10)) - 48)"
      unfolding decimal_large[OF False] by (rule undecimal_snoc)
    also have "\<dots> = 10 * (n div 10) + n mod 10"
      unfolding ih of_digit_char[OF m] by simp
    finally show ?thesis by simp
  qed
qed

lemma decimal_inj:
  assumes "decimal a = decimal b"
  shows "a = b"
proof -
  have "undecimal (decimal a) = undecimal (decimal b)" by (simp only: assms)
  then show ?thesis by (simp only: undecimal_decimal)
qed

lemma comma_not_digit:
  assumes d: "d < 10"
  shows "digit_char d \<noteq> CHR '',''"
proof
  assume "digit_char d = CHR '',''"
  then have "(of_char (digit_char d) :: nat) = of_char (CHR '','')" by (simp only:)
  then have "48 + d = (44 :: nat)" unfolding of_digit_char[OF d] by simp
  then show False by simp
qed

lemma decimal_no_comma: "CHR '','' \<notin> set (decimal n)"
proof (induction n rule: decimal.induct)
  case (1 n)
  show ?case
  proof (cases "n < 10")
    case True
    show ?thesis
      unfolding decimal_small[OF True] using comma_not_digit[OF True] by simp
  next
    case False
    have m: "n mod 10 < 10" by simp
    have ih: "CHR '','' \<notin> set (decimal (n div 10))" by (rule "1.IH"[OF False])
    show ?thesis
      unfolding decimal_large[OF False] using ih comma_not_digit[OF m] by simp
  qed
qed

lemma split_at_fresh:
  assumes "xs @ c # ys = xs' @ c # ys'" and "c \<notin> set xs" and "c \<notin> set xs'"
  shows "xs = xs' \<and> ys = ys'"
  using assms
proof (induction xs arbitrary: xs')
  case Nil
  then show ?case by (cases xs') auto
next
  case (Cons x xs)
  then show ?case by (cases xs') auto
qed

lemma edge_key_inj: "inj edge_key"
proof (rule injI)
  fix e e' :: "nat \<times> nat"
  assume "edge_key e = edge_key e'"
  then have "decimal (fst e) @ CHR '','' # decimal (snd e) = decimal (fst e') @ CHR '','' # decimal (snd e')"
    by (simp add: edge_key_def)
  from split_at_fresh[OF this decimal_no_comma decimal_no_comma]
  have "decimal (fst e) = decimal (fst e')" "decimal (snd e) = decimal (snd e')" by simp_all
  then have "fst e = fst e'" "snd e = snd e'" by (simp_all add: decimal_inj)
  then show "e = e'" by (simp add: prod_eq_iff)
qed

lemma distinct_map_edge_key: "distinct (map edge_key es) = distinct es"
  by (simp add: distinct_map inj_on_subset[OF edge_key_inj])

lemma dist2_squares:
  "dist2 (x, y, z) (x', y', z') = (x - x')\<^sup>2 + (y - y')\<^sup>2 + (z - z')\<^sup>2"
  by (simp add: dist2_def Let_def power2_eq_square)

lemma length_knn_edges_upper:
  assumes "CONNECT_K + 1 \<le> length pts"
  shows "length (knn_edges pts) \<le> length pts * CONNECT_K"
  using length_edges_upto[of pts "length pts"] sum_nearest[OF assms]
  by (simp add: knn_edges_upto)

lemma length_knn_edges_lower:
  assumes "CONNECT_K + 1 \<le> length pts"
  shows "nat \<lceil>real (length pts * CONNECT_K) / 2\<rceil> \<le> length (knn_edges pts)"
proof -
  have "length pts * CONNECT_K \<le> 2 * length (knn_edges pts)"
    using edges_lower[of pts] sum_nearest[OF assms] by simp
  then have "real (length pts * CONNECT_K) \<le> 2 * real (length (knn_edges pts))"
    by (metis of_nat_le_iff of_nat_mult of_nat_numeral)
  then have "real (length pts * CONNECT_K) / 2 \<le> real_of_int (int (length (knn_edges pts)))"
    by simp
  then have "\<lceil>real (length pts * CONNECT_K) / 2\<rceil> \<le> int (length (knn_edges pts))"
    by (rule iffD2[OF ceiling_le_iff])
  then show ?thesis unfolding nat_le_iff .
qed

text \<open>
  C1. For at least \<open>CONNECT_K + 1\<close> points, every point \<open>i\<close> ends its scan with
  exactly \<open>CONNECT_K\<close> entries: distinct indices of other points, each with its squared
  Euclidean distance over the three mapped coordinates, and no point left out is nearer
  than a point kept. The edge set consists of the canonical pairs of these relations; its
  size lies between \<open>ceil (n * CONNECT_K / 2)\<close> and \<open>n * CONNECT_K\<close>; no edge
  occurs twice, as pairs and as string keys; and every edge joins two different points.
\<close>

theorem knn_wireframe:
  assumes "CONNECT_K + 1 \<le> length pts"
  shows "(\<forall>i<length pts.
            length (nearest pts i) = CONNECT_K
          \<and> distinct (map snd (nearest pts i))
          \<and> sorted (map fst (nearest pts i))
          \<and> (\<forall>e \<in> set (nearest pts i).
                snd e < length pts \<and> snd e \<noteq> i \<and> fst e = dist2 (pts ! i) (pts ! snd e))
          \<and> (\<forall>j<length pts. j \<noteq> i \<longrightarrow> j \<notin> snd ` set (nearest pts i) \<longrightarrow>
                (\<forall>e \<in> set (nearest pts i). fst e \<le> dist2 (pts ! i) (pts ! j))))
       \<and> dist2 (x, y, z) (x', y', z') = (x - x')\<^sup>2 + (y - y')\<^sup>2 + (z - z')\<^sup>2
       \<and> set (knn_edges pts) = (\<Union>i<length pts. canon i ` snd ` set (nearest pts i))
       \<and> nat \<lceil>real (length pts * CONNECT_K) / 2\<rceil> \<le> length (knn_edges pts)
       \<and> length (knn_edges pts) \<le> length pts * CONNECT_K
       \<and> card (set (knn_edges pts)) = length (knn_edges pts)
       \<and> distinct (knn_edges pts)
       \<and> distinct (map edge_key (knn_edges pts))
       \<and> (\<forall>e \<in> set (knn_edges pts). fst e < snd e \<and> snd e < length pts)"
proof (intro conjI allI impI ballI)
  fix i assume i: "i < length pts"
  note ok = best_ok_nearest[of pts i]
  show "length (nearest pts i) = CONNECT_K"
    using length_nearest[OF i] assms by simp
  show "distinct (map snd (nearest pts i))" by (rule best_okD(3)[OF ok])
  show "sorted (map fst (nearest pts i))" by (rule best_okD(2)[OF ok])
  {
    fix e assume e: "e \<in> set (nearest pts i)"
    show "snd e < length pts" by (rule best_okD(4)[OF ok e])
    show "snd e \<noteq> i" by (rule best_okD(5)[OF ok e])
    show "fst e = dist2 (pts ! i) (pts ! snd e)" by (rule best_okD(6)[OF ok e])
  }
  {
    fix j e assume "j < length pts" "j \<noteq> i" "j \<notin> snd ` set (nearest pts i)" "e \<in> set (nearest pts i)"
    then show "fst e \<le> dist2 (pts ! i) (pts ! j)" by (rule best_okD(7)[OF ok])
  }
next
  show "dist2 (x, y, z) (x', y', z') = (x - x')\<^sup>2 + (y - y')\<^sup>2 + (z - z')\<^sup>2"
    by (rule dist2_squares)
  show "set (knn_edges pts) = (\<Union>i<length pts. canon i ` snd ` set (nearest pts i))"
    using set_edges_upto[of pts "length pts"] by (simp add: knn_edges_upto nbrs_def)
  show "nat \<lceil>real (length pts * CONNECT_K) / 2\<rceil> \<le> length (knn_edges pts)"
    by (rule length_knn_edges_lower[OF assms])
  show "length (knn_edges pts) \<le> length pts * CONNECT_K"
    by (rule length_knn_edges_upper[OF assms])
  show "card (set (knn_edges pts)) = length (knn_edges pts)"
    by (rule distinct_card[OF distinct_knn_edges])
  show "distinct (knn_edges pts)" by (rule distinct_knn_edges)
  show "distinct (map edge_key (knn_edges pts))"
    by (simp add: distinct_map_edge_key distinct_knn_edges)
next
  fix e assume "e \<in> set (knn_edges pts)"
  then have "(fst e, snd e) \<in> set (knn_edges pts)" by simp
  from edges_ordered[OF this] show "fst e < snd e" "snd e < length pts" by simp_all
qed

lemma square_edges:
  "knn_edges [(0, 0, 0), (1, 0, 0), (1, 1, 0), (0, 1, 0)] = [(0, 1), (0, 3), (1, 2), (2, 3)]"
  by (simp add: knn_edges_def emit_def set_add_def canon_def nearest_def scan_step_def
      dist2_def CONNECT_K_def upt_rec Let_def)

lemma square_nearest:
  "map (nearest [(0, 0, 0), (1, 0, 0), (1, 1, 0), (0, 1, 0)]) [0, 1, 2, 3]
     = [[(1, 1), (1, 3)], [(1, 0), (1, 2)], [(1, 1), (1, 3)], [(1, 0), (1, 2)]]"
  by (simp add: nearest_def scan_step_def dist2_def CONNECT_K_def upt_rec Let_def)

theorem knn_wireframe_witness:
  "length (nearest [(0, 0, 0), (1, 0, 0), (1, 1, 0), (0, 1, 0)] 0) = 2
   \<and> nearest [(0, 0, 0), (1, 0, 0), (1, 1, 0), (0, 1, 0)] 0 = [(1, 1), (1, 3)]
   \<and> 4 \<le> length (knn_edges [(0, 0, 0), (1, 0, 0), (1, 1, 0), (0, 1, 0)])
   \<and> length (knn_edges [(0, 0, 0), (1, 0, 0), (1, 1, 0), (0, 1, 0)]) \<le> 8
   \<and> distinct (knn_edges [(0, 0, 0), (1, 0, 0), (1, 1, 0), (0, 1, 0)])
   \<and> knn_edges [(0, 0, 0), (1, 0, 0), (1, 1, 0), (0, 1, 0)] = [(0, 1), (0, 3), (1, 2), (2, 3)]"
proof -
  let ?sq = "[(0, 0, 0), (1, 0, 0), (1, 1, 0), (0, 1, 0)] :: point list"
  have h: "CONNECT_K + 1 \<le> length ?sq" by (simp add: CONNECT_K_def)
  have c: "nat \<lceil>real (length ?sq * CONNECT_K) / 2\<rceil> = 4" by (simp add: CONNECT_K_def)
  note w = knn_wireframe[OF h, of 0 0 0 0 0 0]
  have z: "0 < length ?sq" by simp
  have "length (nearest ?sq 0) = CONNECT_K"
    using w[THEN conjunct1, rule_format, OF z] by (rule conjunct1)
  then have 1: "length (nearest ?sq 0) = 2" by (simp add: CONNECT_K_def)
  note r = w[THEN conjunct2, THEN conjunct2, THEN conjunct2]
  have 2: "4 \<le> length (knn_edges ?sq)" using r[THEN conjunct1] unfolding c .
  have "length (knn_edges ?sq) \<le> length ?sq * CONNECT_K"
    by (rule r[THEN conjunct2, THEN conjunct1])
  then have 3: "length (knn_edges ?sq) \<le> 8" by (simp add: CONNECT_K_def)
  have 4: "distinct (knn_edges ?sq)"
    by (rule r[THEN conjunct2, THEN conjunct2, THEN conjunct2, THEN conjunct1])
  have 5: "nearest ?sq 0 = [(1, 1), (1, 3)]" using square_nearest by simp
  from 1 2 3 4 5 square_edges show ?thesis by simp
qed

text \<open>
  C10. For at most \<open>CONNECT_K + 1\<close> points every point is connected to all the other
  points, the edge set is the set of all pairs \<open>a < b\<close> of indices, without repetition,
  and has \<open>n * (n - 1) / 2\<close> members; for a single point it is empty.
\<close>

theorem knn_small_complete:
  assumes "length pts \<le> CONNECT_K + 1"
  shows "(\<forall>i<length pts. snd ` set (nearest pts i) = {j. j < length pts \<and> j \<noteq> i})
       \<and> set (knn_edges pts) = {(a, b). a < b \<and> b < length pts}
       \<and> distinct (knn_edges pts)
       \<and> distinct (map edge_key (knn_edges pts))
       \<and> length (knn_edges pts) = length pts * (length pts - 1) div 2
       \<and> (length pts = 1 \<longrightarrow> knn_edges pts = [])"
proof (intro conjI allI impI)
  fix i assume "i < length pts"
  from nbrs_small[OF assms this]
  show "snd ` set (nearest pts i) = {j. j < length pts \<and> j \<noteq> i}" by (simp add: nbrs_def)
next
  show "set (knn_edges pts) = {(a, b). a < b \<and> b < length pts}" by (rule edges_small[OF assms])
  show "distinct (knn_edges pts)" by (rule distinct_knn_edges)
  show "distinct (map edge_key (knn_edges pts))"
    by (simp add: distinct_map_edge_key distinct_knn_edges)
  show "length (knn_edges pts) = length pts * (length pts - 1) div 2"
    by (rule length_edges_small[OF assms])
next
  assume "length pts = 1"
  then have "length (knn_edges pts) = 0" using length_edges_small[OF assms] by simp
  then show "knn_edges pts = []" by simp
qed

theorem knn_small_complete_witness:
  "set (knn_edges [(0, 0, 0), (1, 0, 0), (5, 5, 5)]) = {(0, 1), (0, 2), (1, 2)}
   \<and> length (knn_edges [(0, 0, 0), (1, 0, 0), (5, 5, 5)]) = 3
   \<and> length (knn_edges [(0, 0, 0), (7, 0, 0)]) = 1
   \<and> knn_edges [(3, 4, 5)] = []"
proof -
  let ?p3 = "[(0, 0, 0), (1, 0, 0), (5, 5, 5)] :: point list"
  let ?p2 = "[(0, 0, 0), (7, 0, 0)] :: point list"
  let ?p1 = "[(3, 4, 5)] :: point list"
  have h: "length ?p3 \<le> CONNECT_K + 1" "length ?p2 \<le> CONNECT_K + 1" "length ?p1 \<le> CONNECT_K + 1"
    by (simp_all add: CONNECT_K_def)
  have s: "{(a, b). a < b \<and> b < length ?p3} = {(0, 1), (0, 2), (1, 2)}"
    by (auto simp: less_Suc_eq)
  have 1: "set (knn_edges ?p3) = {(0, 1), (0, 2), (1, 2)}"
    using knn_small_complete[OF h(1), THEN conjunct2, THEN conjunct1] unfolding s .
  note t = conjunct2[OF conjunct2[OF conjunct2[OF conjunct2]]]
  have 2: "length (knn_edges ?p3) = 3"
    using knn_small_complete[OF h(1), THEN t, THEN conjunct1] by simp
  have 3: "length (knn_edges ?p2) = 1"
    using knn_small_complete[OF h(2), THEN t, THEN conjunct1] by simp
  have 4: "knn_edges ?p1 = []"
    using knn_small_complete[OF h(3), THEN t, THEN conjunct2] by simp
  from 1 2 3 4 show ?thesis by simp
qed

section \<open>The throttle of the line recomputation (C6)\<close>

lemma toDisplayPoints_empty_iff:
  assumes "toDisplayPoints c v raw = Inr pts"
  shows "pts = [] \<longleftrightarrow> raw = []"
proof (cases "raw = []")
  case True
  then have "toDisplayPoints c v raw = Inr []"
    by (cases c; cases v) (simp_all add: toDisplayPoints_def)
  with assms True show ?thesis by simp
next
  case False
  have "length pts = length raw"
  proof (cases c)
    case None
    then show ?thesis using assms by (simp add: toDisplayPoints_def)
  next
    case (Some cc)
    show ?thesis
    proof (cases v)
      case None
      then show ?thesis using assms Some by (simp add: toDisplayPoints_def)
    next
      case (Some vv)
      show ?thesis
      proof (cases "source_vh cc vv = 0")
        case True
        then show ?thesis using assms \<open>c = Some cc\<close> Some False
          by (simp add: toDisplayPoints_def Let_def)
      next
        case nz: False
        then have "pts = map (\<lambda>(x, y, z).
            (x * max (display_cw cc / source_vw cc vv) (display_ch cc / source_vh cc vv)
               + (display_cw cc - source_vw cc vv
                    * max (display_cw cc / source_vw cc vv) (display_ch cc / source_vh cc vv)) / 2,
             y * max (display_cw cc / source_vw cc vv) (display_ch cc / source_vh cc vv)
               + (display_ch cc - source_vh cc vv
                    * max (display_cw cc / source_vw cc vv) (display_ch cc / source_vh cc vv)) / 2,
             js_or z 0)) raw"
          using assms \<open>c = Some cc\<close> Some False
          by (simp add: toDisplayPoints_def Let_def)
        then show ?thesis by (simp only: length_map)
      qed
    qed
  qed
  with False show ?thesis by auto
qed

lemma fps_tick_frame [simp]:
  "lines (st\<lparr>fpsacc := a\<rparr>) = lines st"
  "lineBuilds (st\<lparr>fpsacc := a\<rparr>) = lineBuilds st"
  "lineFrameCounter (st\<lparr>fpsacc := a\<rparr>) = lineFrameCounter st"
  by simp_all

lemma rebuild_lines_Inr:
  assumes "rebuild_lines pts st = Inr st'"
  shows "lines st' = Some (line_positions pts (knn_edges pts))"
    and "lineBuilds st' = lineBuilds st + 1"
    and "lineFrameCounter st' = lineFrameCounter st"
  using assms by (auto simp: rebuild_lines_def split: if_splits)

lemma update_scene_Inr:
  assumes "update_scene pts st = Inr st'"
  shows "lineFrameCounter st' = lineFrameCounter st + 1"
    and "lineFrameCounter st mod LINES_UPDATE_EVERY_N_FRAMES = 0 \<Longrightarrow>
           lineBuilds st' = lineBuilds st + 1 \<and> lines st' = Some (line_positions pts (knn_edges pts))"
    and "lineFrameCounter st mod LINES_UPDATE_EVERY_N_FRAMES \<noteq> 0 \<Longrightarrow>
           lineBuilds st' = lineBuilds st \<and> lines st' = lines st"
proof -
  define st2 where "st2 = st\<lparr>geo := updateGeometry pts (geo st), lineFrameCounter := lineFrameCounter st + 1\<rparr>"
  have u: "update_scene pts st =
      (if lineFrameCounter st mod LINES_UPDATE_EVERY_N_FRAMES = 0 then rebuild_lines pts st2 else Inr st2)"
    by (simp add: update_scene_def DRAW_LINES_def Let_def st2_def)
  show "lineFrameCounter st' = lineFrameCounter st + 1"
    using assms rebuild_lines_Inr(3)[of pts st2 st'] unfolding u
    by (auto simp: st2_def split: if_splits)
  show "lineFrameCounter st mod LINES_UPDATE_EVERY_N_FRAMES = 0 \<Longrightarrow>
           lineBuilds st' = lineBuilds st + 1 \<and> lines st' = Some (line_positions pts (knn_edges pts))"
    using assms rebuild_lines_Inr(1,2)[of pts st2 st'] unfolding u
    by (auto simp: st2_def)
  show "lineFrameCounter st mod LINES_UPDATE_EVERY_N_FRAMES \<noteq> 0 \<Longrightarrow>
           lineBuilds st' = lineBuilds st \<and> lines st' = lines st"
    using assms unfolding u by (auto simp: st2_def)
qed

lemma loop_cases:
  assumes "loop inp st = Inr st'"
  shows "(\<not> has_points inp \<and> st' = st\<lparr>facesCount := length (faces inp),
              fpsacc := fps_tick (clock inp) (fpsacc st)\<rparr>)
       \<or> (has_points inp \<and> (\<exists>raw rest pts st3.
              faces inp = raw # rest
            \<and> toDisplayPoints (cont inp) (vid inp) raw = Inr pts
            \<and> update_scene pts (st\<lparr>facesCount := length (faces inp)\<rparr>) = Inr st3
            \<and> st' = st3\<lparr>fpsacc := fps_tick (clock inp) (fpsacc st3)\<rparr>))"
proof (cases "faces inp")
  case Nil
  then show ?thesis using assms by (auto simp: loop_def has_points_def Let_def)
next
  case (Cons raw rest)
  show ?thesis
  proof (cases "toDisplayPoints (cont inp) (vid inp) raw")
    case (Inl f)
    then show ?thesis using assms Cons by (simp add: loop_def Let_def)
  next
    case (Inr pts)
    note e = toDisplayPoints_empty_iff[OF Inr]
    show ?thesis
    proof (cases "pts = []")
      case True
      then show ?thesis using assms Cons Inr e by (auto simp: loop_def has_points_def Let_def)
    next
      case False
      then show ?thesis using assms Cons Inr e
        by (auto simp: loop_def has_points_def Let_def split: sum.splits)
    qed
  qed
qed

lemma loop_counter:
  assumes "loop inp st = Inr st'"
  shows "lineFrameCounter st' = lineFrameCounter st + (if has_points inp then 1 else 0)"
  using loop_cases[OF assms] by (auto dest: update_scene_Inr(1))

lemma loop_due:
  assumes "loop inp st = Inr st'" and "has_points inp"
    and "lineFrameCounter st mod LINES_UPDATE_EVERY_N_FRAMES = 0"
  shows "lineBuilds st' = lineBuilds st + 1"
    and "\<exists>raw rest pts. faces inp = raw # rest
            \<and> toDisplayPoints (cont inp) (vid inp) raw = Inr pts
            \<and> lines st' = Some (line_positions pts (knn_edges pts))"
proof -
  from loop_cases[OF assms(1)] assms(2) obtain raw rest pts st3 where
    f: "faces inp = raw # rest" and t: "toDisplayPoints (cont inp) (vid inp) raw = Inr pts"
    and u: "update_scene pts (st\<lparr>facesCount := length (faces inp)\<rparr>) = Inr st3"
    and s: "st' = st3\<lparr>fpsacc := fps_tick (clock inp) (fpsacc st3)\<rparr>" by auto
  have "lineFrameCounter (st\<lparr>facesCount := length (faces inp)\<rparr>) mod LINES_UPDATE_EVERY_N_FRAMES = 0"
    using assms(3) by simp
  from update_scene_Inr(2)[OF u this]
  have b: "lineBuilds st3 = lineBuilds st + 1" "lines st3 = Some (line_positions pts (knn_edges pts))"
    by simp_all
  show "lineBuilds st' = lineBuilds st + 1" using b by (simp add: s)
  show "\<exists>raw rest pts. faces inp = raw # rest
            \<and> toDisplayPoints (cont inp) (vid inp) raw = Inr pts
            \<and> lines st' = Some (line_positions pts (knn_edges pts))"
    using f t b by (auto simp: s)
qed

lemma loop_skip:
  assumes "loop inp st = Inr st'"
    and "\<not> has_points inp \<or> lineFrameCounter st mod LINES_UPDATE_EVERY_N_FRAMES \<noteq> 0"
  shows "lineBuilds st' = lineBuilds st \<and> lines st' = lines st"
proof (cases "has_points inp")
  case False
  then show ?thesis using loop_cases[OF assms(1)] by auto
next
  case True
  with loop_cases[OF assms(1)] obtain pts st3 where
    u: "update_scene pts (st\<lparr>facesCount := length (faces inp)\<rparr>) = Inr st3"
    and s: "st' = st3\<lparr>fpsacc := fps_tick (clock inp) (fpsacc st3)\<rparr>" by auto
  have "lineFrameCounter (st\<lparr>facesCount := length (faces inp)\<rparr>) mod LINES_UPDATE_EVERY_N_FRAMES \<noteq> 0"
    using assms(2) True by simp
  from update_scene_Inr(3)[OF u this] show ?thesis by (simp add: s)
qed

lemma run_loop_counter:
  "run_loop inps st = Inr st' \<Longrightarrow>
     lineFrameCounter st' = lineFrameCounter st + length (filter has_points inps)"
proof (induction inps arbitrary: st)
  case Nil
  then show ?case by simp
next
  case (Cons inp inps)
  then obtain st1 where l: "loop inp st = Inr st1" and r: "run_loop inps st1 = Inr st'"
    by (cases "loop inp st") simp_all
  from Cons.IH[OF r] loop_counter[OF l] show ?case by simp
qed

lemma half_even:
  fixes c p B B' :: nat
  assumes "c mod 2 = 0" and "B' + (c + 1 + 1) div 2 = B + 1 + (c + 1 + p + 1) div 2"
  shows "B' + (c + 1) div 2 = B + (c + Suc p + 1) div 2"
  using assms by presburger

lemma half_odd:
  fixes c p B B' :: nat
  assumes "c mod 2 \<noteq> 0" and "B' + (c + 1 + 1) div 2 = B + (c + 1 + p + 1) div 2"
  shows "B' + (c + 1) div 2 = B + (c + Suc p + 1) div 2"
  using assms by presburger

lemma run_loop_builds:
  "run_loop inps st = Inr st' \<Longrightarrow>
     lineBuilds st' + (lineFrameCounter st + 1) div 2
       = lineBuilds st + (lineFrameCounter st + length (filter has_points inps) + 1) div 2"
proof (induction inps arbitrary: st)
  case Nil
  then show ?case by simp
next
  case (Cons inp inps)
  then obtain st1 where l: "loop inp st = Inr st1" and r: "run_loop inps st1 = Inr st'"
    by (cases "loop inp st") simp_all
  note ih = Cons.IH[OF r]
  show ?case
  proof (cases "has_points inp")
    case False
    have c: "lineFrameCounter st1 = lineFrameCounter st" using loop_counter[OF l] False by simp
    have b: "lineBuilds st1 = lineBuilds st" using loop_skip[OF l] False by simp
    show ?thesis using ih False unfolding c b by simp
  next
    case True
    have c: "lineFrameCounter st1 = lineFrameCounter st + 1" using loop_counter[OF l] True by simp
    have f: "length (filter has_points (inp # inps)) = Suc (length (filter has_points inps))"
      using True by simp
    show ?thesis
    proof (cases "lineFrameCounter st mod 2 = 0")
      case even: True
      have b: "lineBuilds st1 = lineBuilds st + 1"
        using loop_due(1)[OF l True] even by (simp add: LINES_UPDATE_EVERY_N_FRAMES_def)
      show ?thesis unfolding f using ih unfolding c b by (rule half_even[OF even])
    next
      case odd: False
      have b: "lineBuilds st1 = lineBuilds st"
        using loop_skip[OF l] odd by (simp add: LINES_UPDATE_EVERY_N_FRAMES_def)
      show ?thesis unfolding f using ih unfolding c b by (rule half_odd[OF odd])
    qed
  qed
qed

lemma run_loop_snoc:
  "run_loop (inps @ [inp]) st =
     (case run_loop inps st of Inl f \<Rightarrow> Inl f | Inr st1 \<Rightarrow> loop inp st1)"
proof (induction inps arbitrary: st)
  case Nil
  show ?case by (cases "loop inp st") simp_all
next
  case (Cons a inps)
  show ?case by (cases "loop a st") (simp_all add: Cons.IH)
qed

lemma updateGeometry_scene: "scene (updateGeometry pts g) = scene g"
proof (cases "scene g")
  case True
  then show ?thesis using updateGeometry_position(4)[OF True, of pts] by simp
next
  case False
  then show ?thesis by (simp add: updateGeometry_def)
qed

lemma update_scene_goes_on:
  assumes "scene (geo st)"
  shows "\<exists>st'. update_scene pts st = Inr st' \<and> scene (geo st')"
  using assms
  by (simp add: update_scene_def rebuild_lines_def Let_def updateGeometry_scene)

lemma loop_goes_on:
  assumes "scene (geo st)" and "cont inp = None"
  shows "\<exists>st'. loop inp st = Inr st' \<and> scene (geo st')"
proof (cases "faces inp")
  case Nil
  then show ?thesis using assms by (simp add: loop_def Let_def)
next
  case (Cons raw rest)
  have t: "toDisplayPoints (cont inp) (vid inp) raw = Inr raw"
    using assms(2) by (simp add: toDisplayPoints_def)
  show ?thesis
  proof (cases "raw = []")
    case True
    then show ?thesis using assms Cons t by (simp add: loop_def Let_def)
  next
    case False
    have "scene (geo (st\<lparr>facesCount := length (faces inp)\<rparr>))" using assms(1) by simp
    from update_scene_goes_on[OF this, of raw] obtain st3 where
      "update_scene raw (st\<lparr>facesCount := length (faces inp)\<rparr>) = Inr st3" "scene (geo st3)"
      by blast
    then show ?thesis using Cons t False by (simp add: loop_def Let_def)
  qed
qed

lemma run_loop_goes_on:
  assumes "scene (geo st)" and "\<forall>inp \<in> set inps. cont inp = None"
  shows "\<exists>st'. run_loop inps st = Inr st' \<and> scene (geo st')"
  using assms
proof (induction inps arbitrary: st)
  case Nil
  then show ?case by simp
next
  case (Cons inp inps)
  from loop_goes_on[OF Cons.prems(1), of inp] Cons.prems(2)
  obtain st1 where l: "loop inp st = Inr st1" and s: "scene (geo st1)" by auto
  from Cons.IH[OF s] Cons.prems(2) obtain st' where "run_loop inps st1 = Inr st'" "scene (geo st')"
    by auto
  then show ?case using l by simp
qed

text \<open>
  C6, as amended. In a run of the loop from start-up, \<open>lineFrameCounter\<close> counts the
  earlier frames that carried a non-empty landmark list. A frame recomputes the edge set
  exactly when it carries such a list and that count is a multiple of
  \<open>LINES_UPDATE_EVERY_N_FRAMES\<close>; then the line buffer is rebuilt from this frame's
  points. On every other frame (no face, or off the cycle, whatever its point count) the
  line buffer is left as it was.
\<close>

theorem line_recompute_throttle:
  assumes "lineFrameCounter st0 = 0"
    and "run_loop inps st0 = Inr st"
    and "loop inp st = Inr st'"
  shows "(has_points inp
            \<and> length (filter has_points inps) mod LINES_UPDATE_EVERY_N_FRAMES = 0 \<longrightarrow>
            lineBuilds st' = lineBuilds st + 1
          \<and> (\<exists>raw rest pts. faces inp = raw # rest
                \<and> toDisplayPoints (cont inp) (vid inp) raw = Inr pts
                \<and> lines st' = Some (line_positions pts (knn_edges pts))))
       \<and> (\<not> (has_points inp
               \<and> length (filter has_points inps) mod LINES_UPDATE_EVERY_N_FRAMES = 0) \<longrightarrow>
            lineBuilds st' = lineBuilds st \<and> lines st' = lines st)
       \<and> lineFrameCounter st = length (filter has_points inps)"
proof -
  have c: "lineFrameCounter st = length (filter has_points inps)"
    using run_loop_counter[OF assms(2)] assms(1) by simp
  show ?thesis
  proof (intro conjI impI)
    assume a: "has_points inp
            \<and> length (filter has_points inps) mod LINES_UPDATE_EVERY_N_FRAMES = 0"
    then have h: "has_points inp" "lineFrameCounter st mod LINES_UPDATE_EVERY_N_FRAMES = 0"
      using c by simp_all
    show "lineBuilds st' = lineBuilds st + 1" by (rule loop_due(1)[OF assms(3) h])
    show "\<exists>raw rest pts. faces inp = raw # rest
                \<and> toDisplayPoints (cont inp) (vid inp) raw = Inr pts
                \<and> lines st' = Some (line_positions pts (knn_edges pts))"
      by (rule loop_due(2)[OF assms(3) h])
  next
    assume "\<not> (has_points inp
               \<and> length (filter has_points inps) mod LINES_UPDATE_EVERY_N_FRAMES = 0)"
    then have "\<not> has_points inp \<or> lineFrameCounter st mod LINES_UPDATE_EVERY_N_FRAMES \<noteq> 0"
      using c by simp
    from loop_skip[OF assms(3) this]
    show "lineBuilds st' = lineBuilds st" "lines st' = lines st" by simp_all
  next
    show "lineFrameCounter st = length (filter has_points inps)" by (rule c)
  qed
qed

lemma example_frames:
  "has_points frame_two" "has_points frame_three" "\<not> has_points frame_none"
  "cont frame_two = None" "cont frame_three = None" "cont frame_none = None"
  "scene (geo start_state)" "lineFrameCounter start_state = 0" "lineBuilds start_state = 0"
  by (simp_all add: has_points_def frame_two_def frame_three_def frame_none_def start_state_def)

lemma example_builds:
  assumes "set inps \<subseteq> {frame_two, frame_three, frame_none}"
  shows "builds_after inps start_state = Some ((length (filter has_points inps) + 1) div 2)"
proof -
  have "\<forall>inp \<in> set inps. cont inp = None" using assms example_frames(4,5,6) by auto
  from run_loop_goes_on[OF example_frames(7) this] obtain st' where
    r: "run_loop inps start_state = Inr st'" by blast
  from run_loop_builds[OF r] have "lineBuilds st' = (length (filter has_points inps) + 1) div 2"
    by (simp add: example_frames)
  then show ?thesis by (simp add: builds_after_def r)
qed

lemma example_lines:
  "line_positions [(0, 0, 1), (3, 4, 2)] (knn_edges [(0, 0, 1), (3, 4, 2)])
     = [0, 0, - 50, 3, 4, - 100]"
  by (simp add: line_positions_def knn_edges_def emit_def set_add_def canon_def nearest_def
      scan_step_def dist2_def CONNECT_K_def DEPTH_SCALE_def upt_rec Let_def)

theorem line_recompute_throttle_witness:
  "(\<exists>st st'. run_loop [frame_two, frame_none] start_state = Inr st
      \<and> loop frame_three st = Inr st'
      \<and> lineBuilds st' = lineBuilds st \<and> lines st' = lines st
      \<and> lineFrameCounter st = 1)
   \<and> (\<exists>st st'. run_loop [frame_two, frame_none, frame_three] start_state = Inr st
      \<and> loop frame_two st = Inr st'
      \<and> lineBuilds st' = lineBuilds st + 1
      \<and> lines st' = Some [0, 0, - 50, 3, 4, - 100]
      \<and> lineFrameCounter st = 2)"
proof
  have "\<forall>inp \<in> set [frame_two, frame_none, frame_three]. cont inp = None"
    by (simp add: example_frames)
  from run_loop_goes_on[OF example_frames(7) this] obtain st' where
    "run_loop ([frame_two, frame_none] @ [frame_three]) start_state = Inr st'" by auto
  then obtain st where r: "run_loop [frame_two, frame_none] start_state = Inr st"
    and l: "loop frame_three st = Inr st'"
    unfolding run_loop_snoc by (cases "run_loop [frame_two, frame_none] start_state") simp_all
  from line_recompute_throttle[OF example_frames(8) r l]
  have "lineBuilds st' = lineBuilds st \<and> lines st' = lines st \<and> lineFrameCounter st = 1"
    by (simp add: example_frames LINES_UPDATE_EVERY_N_FRAMES_def)
  with r l show "\<exists>st st'. run_loop [frame_two, frame_none] start_state = Inr st
      \<and> loop frame_three st = Inr st'
      \<and> lineBuilds st' = lineBuilds st \<and> lines st' = lines st
      \<and> lineFrameCounter st = 1" by blast
next
  have "\<forall>inp \<in> set [frame_two, frame_none, frame_three, frame_two]. cont inp = None"
    by (simp add: example_frames)
  from run_loop_goes_on[OF example_frames(7) this] obtain st' where
    "run_loop ([frame_two, frame_none, frame_three] @ [frame_two]) start_state = Inr st'" by auto
  then obtain st where r: "run_loop [frame_two, frame_none, frame_three] start_state = Inr st"
    and l: "loop frame_two st = Inr st'"
    unfolding run_loop_snoc
    by (cases "run_loop [frame_two, frame_none, frame_three] start_state") simp_all
  have t: "toDisplayPoints (cont frame_two) (vid frame_two) raw = Inr raw" for raw
    by (simp add: toDisplayPoints_def example_frames)
  from line_recompute_throttle[OF example_frames(8) r l]
  have "lineBuilds st' = lineBuilds st + 1"
    and "\<exists>raw rest pts. faces frame_two = raw # rest
                \<and> toDisplayPoints (cont frame_two) (vid frame_two) raw = Inr pts
                \<and> lines st' = Some (line_positions pts (knn_edges pts))"
    and "lineFrameCounter st = 2"
    by (simp_all add: example_frames LINES_UPDATE_EVERY_N_FRAMES_def)
  moreover from this(2) have "lines st' = Some [0, 0, - 50, 3, 4, - 100]"
    unfolding t by (auto simp: frame_two_def example_lines)
  ultimately show "\<exists>st st'. run_loop [frame_two, frame_none, frame_three] start_state = Inr st
      \<and> loop frame_two st = Inr st'
      \<and> lineBuilds st' = lineBuilds st + 1
      \<and> lines st' = Some [0, 0, - 50, 3, 4, - 100]
      \<and> lineFrameCounter st = 2"
    using r l by blast
qed

text \<open>
  C6 as stated counts render invocations. The loop runs four times below, with no face on
  the second: the edge set is recomputed on the first invocation and on the fourth, which
  are not a multiple of \<open>LINES_UPDATE_EVERY_N_FRAMES\<close> apart.
\<close>

theorem line_recompute_not_every_second_invocation_counterexample:
  "builds_after [] start_state = Some 0
   \<and> builds_after [frame_two] start_state = Some 1
   \<and> builds_after [frame_two, frame_none, frame_three] start_state = Some 1
   \<and> builds_after [frame_two, frame_none, frame_three, frame_two] start_state = Some 2
   \<and> 3 mod LINES_UPDATE_EVERY_N_FRAMES \<noteq> 0"
  using example_builds[of "[]"] example_builds[of "[frame_two]"]
    example_builds[of "[frame_two, frame_none, frame_three]"]
    example_builds[of "[frame_two, frame_none, frame_three, frame_two]"]
  by (simp add: example_frames LINES_UPDATE_EVERY_N_FRAMES_def)

end
